theory Spec2Isabelle
  imports
    Main
    "HOL-Library.Char_ord"
    "HOL-Library.List_Lexorder"
    "HOL-Library.Product_Lexorder"
    "HOL-Library.AList"
begin

section \<open>Backup rotation of OdooGuard (backup.py)\<close>

text \<open>
  The development embeds the helpers and the rotation of \<^verbatim>\<open>src/backup.py\<close>:
  \<^verbatim>\<open>get_backup_name\<close>, \<^verbatim>\<open>parse_backup_timestamp\<close> and \<^verbatim>\<open>rotate_backups\<close>.
  The library calls they make (\<^verbatim>\<open>datetime\<close>, \<^verbatim>\<open>strftime\<close>, \<^verbatim>\<open>strptime\<close>,
  \<^verbatim>\<open>Path.stem\<close>, \<^verbatim>\<open>Path.glob\<close>, \<^verbatim>\<open>Path.unlink\<close>) are embedded after CPython's
  own Python implementations (\<^verbatim>\<open>_pydatetime.py\<close>, \<^verbatim>\<open>_strptime.py\<close>, \<^verbatim>\<open>pathlib.py\<close>),
  on a POSIX system. Python's \<^verbatim>\<open>int\<close> is \<^typ>\<open>int\<close>; a \<^verbatim>\<open>str\<close> is a \<^typ>\<open>string\<close>
  whose characters are 8-bit, so the decimal digits known to the model are the ASCII ones.
\<close>

subsection \<open>The proleptic Gregorian calendar of \<^verbatim>\<open>datetime\<close>\<close>

definition DAYS_IN_MONTH :: "int list" where
  "DAYS_IN_MONTH = [-1, 31, 28, 31, 30, 31, 30, 31, 31, 30, 31, 30, 31]"

definition DAYS_BEFORE_MONTH :: "int list" where
  "DAYS_BEFORE_MONTH = [-1, 0, 31, 59, 90, 120, 151, 181, 212, 243, 273, 304, 334]"

definition is_leap :: "int \<Rightarrow> bool" where
  "is_leap y \<longleftrightarrow> y mod 4 = 0 \<and> (y mod 100 \<noteq> 0 \<or> y mod 400 = 0)"

definition days_before_year :: "int \<Rightarrow> int" where
  "days_before_year yr = (let y = yr - 1 in y * 365 + y div 4 - y div 100 + y div 400)"

definition days_in_month :: "int \<Rightarrow> int \<Rightarrow> int" where
  "days_in_month y m = (if m = 2 \<and> is_leap y then 29 else DAYS_IN_MONTH ! nat m)"

definition days_before_month :: "int \<Rightarrow> int \<Rightarrow> int" where
  "days_before_month y m =
     DAYS_BEFORE_MONTH ! nat m + (if 2 < m \<and> is_leap y then 1 else 0)"

definition ymd2ord :: "int \<Rightarrow> int \<Rightarrow> int \<Rightarrow> int" where
  "ymd2ord y m d = days_before_year y + days_before_month y m + d"

definition DI400Y :: int where "DI400Y = 146097"
definition DI100Y :: int where "DI100Y = 36524"
definition DI4Y :: int where "DI4Y = 1461"
definition MAXORDINAL :: int where "MAXORDINAL = 3652059"

text \<open>
  \<^verbatim>\<open>_ord2ymd\<close>: the ordinal is split into 400-, 100-, 4- and 1-year cycles; the month
  is estimated by \<^verbatim>\<open>(n + 50) >> 5\<close> and corrected when the estimate is one too large.
\<close>

definition ord2ymd :: "int \<Rightarrow> int \<times> int \<times> int" where
  "ord2ymd n0 =
     (let n = n0 - 1;
          n400 = n div DI400Y; n = n mod DI400Y;
          yr = n400 * 400 + 1;
          n100 = n div DI100Y; n = n mod DI100Y;
          n4 = n div DI4Y; n = n mod DI4Y;
          n1 = n div 365; n = n mod 365;
          yr = yr + n100 * 100 + n4 * 4 + n1
      in if n1 = 4 \<or> n100 = 4 then (yr - 1, 12, 31)
         else
           let leapyear = (n1 = 3 \<and> (n4 \<noteq> 24 \<or> n100 = 3));
               m = (n + 50) div 32;
               preceding = DAYS_BEFORE_MONTH ! nat m + (if 2 < m \<and> leapyear then 1 else 0)
           in if n < preceding
              then
                let m' = m - 1;
                    preceding' =
                      preceding - (DAYS_IN_MONTH ! nat m' + (if m' = 2 \<and> leapyear then 1 else 0))
                in (yr, m', n - preceding' + 1)
              else (yr, m, n - preceding + 1))"

definition isoweek1monday :: "int \<Rightarrow> int" where
  "isoweek1monday yr =
     (let firstday = ymd2ord yr 1 1;
          firstweekday = (firstday + 6) mod 7;
          week1monday = firstday - firstweekday
      in if 3 < firstweekday then week1monday + 7 else week1monday)"

subsection \<open>Naive \<^verbatim>\<open>datetime\<close> values\<close>

record datetime =
  year :: int
  month :: int
  day :: int
  hour :: int
  minute :: int
  second :: int
  microsecond :: int

datatype exn = ValueError | OverflowError

text \<open>The range checks of the \<^verbatim>\<open>datetime\<close> constructor; outside them it raises \<^verbatim>\<open>ValueError\<close>.\<close>

definition valid_datetime :: "datetime \<Rightarrow> bool" where
  "valid_datetime t \<longleftrightarrow>
     1 \<le> year t \<and> year t \<le> 9999 \<and> 1 \<le> month t \<and> month t \<le> 12 \<and>
     1 \<le> day t \<and> day t \<le> days_in_month (year t) (month t) \<and>
     0 \<le> hour t \<and> hour t \<le> 23 \<and> 0 \<le> minute t \<and> minute t \<le> 59 \<and>
     0 \<le> second t \<and> second t \<le> 59 \<and> 0 \<le> microsecond t \<and> microsecond t \<le> 999999"

definition mk_datetime :: "int \<Rightarrow> int \<Rightarrow> int \<Rightarrow> int \<Rightarrow> int \<Rightarrow> int \<Rightarrow> int \<Rightarrow> datetime option" where
  "mk_datetime y m d hh mm ss us =
     (let t = \<lparr>year = y, month = m, day = d, hour = hh, minute = mm, second = ss,
                microsecond = us\<rparr>
      in if valid_datetime t then Some t else None)"

text \<open>
  Comparison of naive datetimes is the comparison of the tuples of their fields
  (\<^verbatim>\<open>datetime._cmp\<close>).
\<close>

definition dt_key :: "datetime \<Rightarrow> int \<times> int \<times> int \<times> int \<times> int \<times> int \<times> int" where
  "dt_key t = (year t, month t, day t, hour t, minute t, second t, microsecond t)"

definition dt_le :: "datetime \<Rightarrow> datetime \<Rightarrow> bool" where
  "dt_le a b \<longleftrightarrow> dt_key a \<le> dt_key b"

definition dt_less :: "datetime \<Rightarrow> datetime \<Rightarrow> bool" where
  "dt_less a b \<longleftrightarrow> dt_key a < dt_key b"

text \<open>
  \<^verbatim>\<open>t - timedelta(days=n)\<close>: the date moves by whole days through its ordinal and the
  time of day stays; an ordinal outside \<^verbatim>\<open>1..MAXORDINAL\<close> raises \<^verbatim>\<open>OverflowError\<close>.
\<close>

definition dt_sub_days :: "datetime \<Rightarrow> int \<Rightarrow> exn + datetime" where
  "dt_sub_days t n =
     (let ord = ymd2ord (year t) (month t) (day t) - n
      in if 0 < ord \<and> ord \<le> MAXORDINAL
         then (case ord2ymd ord of (y, m, d) \<Rightarrow> Inr (t\<lparr>year := y, month := m, day := d\<rparr>))
         else Inl OverflowError)"

text \<open>\<^verbatim>\<open>ts.isocalendar()\<close>, of which the rotation reads \<^verbatim>\<open>.year\<close> and \<^verbatim>\<open>.week\<close>.\<close>

definition isocalendar :: "datetime \<Rightarrow> int \<times> int \<times> int" where
  "isocalendar t =
     (let yr = year t;
          week1monday = isoweek1monday yr;
          today = ymd2ord (year t) (month t) (day t);
          week = (today - week1monday) div 7;
          wd = (today - week1monday) mod 7
      in if week < 0
         then
           let yr = yr - 1;
               week1monday = isoweek1monday yr;
               week = (today - week1monday) div 7;
               wd = (today - week1monday) mod 7
           in (yr, week + 1, wd + 1)
         else if 52 \<le> week \<and> isoweek1monday (yr + 1) \<le> today
         then (yr + 1, 1, wd + 1)
         else (yr, week + 1, wd + 1))"

subsection \<open>Formatting and parsing the timestamp\<close>

definition digit_char :: "nat \<Rightarrow> char" where
  "digit_char n = ''0123456789'' ! n"

text \<open>\<^verbatim>\<open>str(n)\<close> of a non-negative integer, and \<^verbatim>\<open>str.zfill\<close>.\<close>

fun str_nat :: "nat \<Rightarrow> string" where
  "str_nat n = (if n < 10 then [digit_char n] else str_nat (n div 10) @ [digit_char (n mod 10)])"

definition zfill :: "nat \<Rightarrow> string \<Rightarrow> string" where
  "zfill w s = replicate (w - length s) (CHR ''0'') @ s"

text \<open>
  \<^verbatim>\<open>strftime("%Y%m%d_%H%M%S")\<close>. The directives \<^verbatim>\<open>%m %d %H %M %S\<close> are zero-padded to
  two digits. Whether \<^verbatim>\<open>%Y\<close> pads a year below 1000 to four digits depends on the C
  library and the Python version (the library reference documents \<^verbatim>\<open>0001\<close>; glibc
  prints \<^verbatim>\<open>1\<close>), so the padding of the year is the parameter \<open>pad_year\<close>.
\<close>

definition strftime :: "bool \<Rightarrow> datetime \<Rightarrow> string" where
  "strftime pad_year t =
     (if pad_year then zfill 4 (str_nat (nat (year t))) else str_nat (nat (year t)))
     @ zfill 2 (str_nat (nat (month t))) @ zfill 2 (str_nat (nat (day t))) @ ''_''
     @ zfill 2 (str_nat (nat (hour t))) @ zfill 2 (str_nat (nat (minute t)))
     @ zfill 2 (str_nat (nat (second t)))"

text \<open>
  \<^verbatim>\<open>get_backup_name\<close> reads the clock; the instant it reads is the parameter \<open>now\<close>.
\<close>

definition get_backup_name :: "bool \<Rightarrow> string \<Rightarrow> datetime \<Rightarrow> string" where
  "get_backup_name pad_year db_name now = db_name @ ''_'' @ strftime pad_year now"

text \<open>
  \<^verbatim>\<open>strptime\<close> compiles the format to the regular expression
  \<^verbatim>\<open>(?P<Y>\d\d\d\d)(?P<m>1[0-2]|0[1-9]|[1-9])(?P<d>3[0-1]|[1-2]\d|0[1-9]|[1-9]| [1-9])_\<close>
  \<^verbatim>\<open>(?P<H>2[0-3]|[0-1]\d|\d)(?P<M>[0-5]\d|\d)(?P<S>6[0-1]|[0-5]\d|\d)\<close>
  and takes the first match of a backtracking matcher. A matcher here returns every
  way to match a prefix, in the order the backtracking tries them, each with the rest
  of the text.
\<close>

type_synonym matcher = "string \<Rightarrow> (string \<times> string) list"

definition is_digit :: "char \<Rightarrow> bool" where
  "is_digit c \<longleftrightarrow> c \<in> set ''0123456789''"

definition between :: "char \<Rightarrow> char \<Rightarrow> char \<Rightarrow> bool" where
  "between lo hi c \<longleftrightarrow> is_digit c \<and> lo \<le> c \<and> c \<le> hi"

fun chars1 :: "(char \<Rightarrow> bool) \<Rightarrow> matcher" where
  "chars1 p (c # s) = (if p c then [([c], s)] else [])"
| "chars1 p [] = []"

fun chars2 :: "(char \<Rightarrow> bool) \<Rightarrow> (char \<Rightarrow> bool) \<Rightarrow> matcher" where
  "chars2 p q (c # d # s) = (if p c \<and> q d then [([c, d], s)] else [])"
| "chars2 p q [c] = []"
| "chars2 p q [] = []"

definition alt :: "matcher \<Rightarrow> matcher \<Rightarrow> matcher" where
  "alt a b s = a s @ b s"

fun re_Y :: matcher where
  "re_Y (a # b # c # d # s) =
     (if is_digit a \<and> is_digit b \<and> is_digit c \<and> is_digit d then [([a, b, c, d], s)] else [])"
| "re_Y s = []"

definition re_m :: matcher where
  "re_m = alt (chars2 ((=) CHR ''1'') (between CHR ''0'' CHR ''2''))
         (alt (chars2 ((=) CHR ''0'') (between CHR ''1'' CHR ''9''))
              (chars1 (between CHR ''1'' CHR ''9'')))"

definition re_d :: matcher where
  "re_d = alt (chars2 ((=) CHR ''3'') (between CHR ''0'' CHR ''1''))
         (alt (chars2 (between CHR ''1'' CHR ''2'') is_digit)
         (alt (chars2 ((=) CHR ''0'') (between CHR ''1'' CHR ''9''))
         (alt (chars1 (between CHR ''1'' CHR ''9''))
              (chars2 ((=) CHR '' '') (between CHR ''1'' CHR ''9'')))))"

definition re_H :: matcher where
  "re_H = alt (chars2 ((=) CHR ''2'') (between CHR ''0'' CHR ''3''))
         (alt (chars2 (between CHR ''0'' CHR ''1'') is_digit) (chars1 is_digit))"

definition re_M :: matcher where
  "re_M = alt (chars2 (between CHR ''0'' CHR ''5'') is_digit) (chars1 is_digit)"

definition re_S :: matcher where
  "re_S = alt (chars2 ((=) CHR ''6'') (between CHR ''0'' CHR ''1''))
         (alt (chars2 (between CHR ''0'' CHR ''5'') is_digit) (chars1 is_digit))"

definition lit :: "char \<Rightarrow> matcher" where
  "lit c = chars1 ((=) c)"

text \<open>Sequencing: every match of the first part, continued by every match of the rest.\<close>

definition seq :: "(string \<times> string) list \<Rightarrow> (string \<Rightarrow> string \<Rightarrow> 'a list) \<Rightarrow> 'a list" where
  "seq xs f = concat (map (\<lambda>(g, r). f g r) xs)"

definition format_regex_matches ::
  "string \<Rightarrow> ((string \<times> string \<times> string \<times> string \<times> string \<times> string) \<times> string) list" where
  "format_regex_matches s =
     seq (re_Y s) (\<lambda>gY r. seq (re_m r) (\<lambda>gm r. seq (re_d r) (\<lambda>gd r.
     seq (lit CHR ''_'' r) (\<lambda>_ r. seq (re_H r) (\<lambda>gH r. seq (re_M r) (\<lambda>gM r.
     seq (re_S r) (\<lambda>gS r. [((gY, gm, gd, gH, gM, gS), r)])))))))"

text \<open>\<^verbatim>\<open>int(group)\<close> on a matched group: decimal digits after optional leading blanks.\<close>

definition digit_val :: "char \<Rightarrow> int" where
  "digit_val c = int (of_char c) - 48"

definition py_int :: "string \<Rightarrow> int" where
  "py_int s = foldl (\<lambda>a c. 10 * a + digit_val c) 0 (dropWhile ((=) CHR '' '') s)"

text \<open>
  \<^verbatim>\<open>datetime.strptime(s, "%Y%m%d_%H%M%S")\<close>: no match, text left after the first match,
  or fields that are no date and time of day, raise \<^verbatim>\<open>ValueError\<close>.
\<close>

definition strptime :: "string \<Rightarrow> exn + datetime" where
  "strptime s =
     (case format_regex_matches s of
        [] \<Rightarrow> Inl ValueError
      | ((gY, gm, gd, gH, gM, gS), rest) # _ \<Rightarrow>
          if rest \<noteq> [] then Inl ValueError
          else (case mk_datetime (py_int gY) (py_int gm) (py_int gd)
                       (py_int gH) (py_int gM) (py_int gS) 0 of
                  None \<Rightarrow> Inl ValueError
                | Some t \<Rightarrow> Inr t))"

subsection \<open>Path names\<close>

text \<open>\<^verbatim>\<open>str.split(sep)\<close> and \<^verbatim>\<open>sep.join(parts)\<close> for a one-character separator.\<close>

fun split_on :: "char \<Rightarrow> string \<Rightarrow> string list" where
  "split_on c [] = [[]]"
| "split_on c (x # xs) =
     (if x = c then [] # split_on c xs
      else (case split_on c xs of p # ps \<Rightarrow> (x # p) # ps | [] \<Rightarrow> [[x]]))"

fun join_with :: "char \<Rightarrow> string list \<Rightarrow> string" where
  "join_with c [] = []"
| "join_with c [p] = p"
| "join_with c (p # q # ps) = p @ c # join_with c (q # ps)"

text \<open>
  \<^verbatim>\<open>Path(s).name\<close> on POSIX: the last of the components left after dropping the
  empty ones and the \<^verbatim>\<open>.\<close> ones, or the empty string.
\<close>

definition path_name :: "string \<Rightarrow> string" where
  "path_name s =
     (let tail = filter (\<lambda>x. x \<noteq> [] \<and> x \<noteq> ''.'') (split_on CHR ''/'' s)
      in if tail = [] then [] else last tail)"

text \<open>\<^verbatim>\<open>str.rfind(c)\<close>: the index of the last occurrence, or \<open>-1\<close>.\<close>

fun rfind :: "char \<Rightarrow> string \<Rightarrow> int" where
  "rfind c [] = -1"
| "rfind c (x # xs) = (let i = rfind c xs in if 0 \<le> i then i + 1 else if x = c then 0 else -1)"

definition path_stem :: "string \<Rightarrow> string" where
  "path_stem s =
     (let name = path_name s; i = rfind CHR ''.'' name
      in if 0 < i \<and> i < int (length name) - 1 then take (nat i) name else name)"

subsection \<open>\<^verbatim>\<open>parse_backup_timestamp\<close>\<close>

definition parse_backup_timestamp :: "string \<Rightarrow> datetime option" where
  "parse_backup_timestamp filename =
     (let stem = path_stem filename;
          parts = split_on CHR ''_'' stem
      in if length parts < 2 then None
         else
           let ts_str = join_with CHR ''_'' (drop (length parts - 2) parts)
           in (case strptime ts_str of Inr t \<Rightarrow> Some t | Inl _ \<Rightarrow> None))"

subsection \<open>The backup directory\<close>

text \<open>
  The backup directory is flat: \<open>names\<close> lists its entries in the order the file system
  enumerates them. \<^verbatim>\<open>Path.unlink\<close> raises an \<^verbatim>\<open>OSError\<close> for an entry that is absent or
  that cannot be removed; the entries that cannot be removed are \<open>protected\<close>.
\<close>

record fs =
  names :: "string list"
  protected :: "string set"

datatype os_error = FileNotFoundError | PermissionError

definition unlink :: "fs \<Rightarrow> string \<Rightarrow> os_error + fs" where
  "unlink d f =
     (if f \<notin> set (names d) then Inl FileNotFoundError
      else if f \<in> protected d then Inl PermissionError
      else Inr (d\<lparr>names := removeAll f (names d)\<rparr>))"

text \<open>
  Shell-style matching of one path component (\<^verbatim>\<open>fnmatch\<close>): \<^verbatim>\<open>*\<close> matches any run of
  characters, \<^verbatim>\<open>?\<close> any one character, any other character itself. Bracket
  expressions are not part of the model: a database name is taken to contain neither
  \<^verbatim>\<open>[\<close> nor \<^verbatim>\<open>/\<close>.
\<close>

fun fnmatch :: "string \<Rightarrow> string \<Rightarrow> bool" where
  "fnmatch [] [] = True"
| "fnmatch [] (c # s) = False"
| "fnmatch (p # ps) [] = (p = CHR ''*'' \<and> fnmatch ps [])"
| "fnmatch (p # ps) (c # s) =
     (if p = CHR ''*'' then fnmatch ps (c # s) \<or> fnmatch (p # ps) s
      else (p = CHR ''?'' \<or> p = c) \<and> fnmatch ps s)"

text \<open>\<^verbatim>\<open>backup_dir.glob(f"{db}_*.zip")\<close>, each path standing for its file name.\<close>

definition glob :: "string list \<Rightarrow> string \<Rightarrow> string list" where
  "glob listing db = filter (fnmatch (db @ ''_*.zip'')) listing"

subsection \<open>\<^verbatim>\<open>rotate_backups\<close>\<close>

type_synonym entry = "string \<times> datetime"

datatype log_line =
    Skipping string
  | Deleting string
  | Cannot_delete string os_error

text \<open>Lines 165 to 171: the parsed entries, and the log of the names that do not parse.\<close>

fun parse_entries :: "string list \<Rightarrow> entry list" where
  "parse_entries [] = []"
| "parse_entries (f # fs) =
     (case parse_backup_timestamp f of
        Some ts \<Rightarrow> (f, ts) # parse_entries fs
      | None \<Rightarrow> parse_entries fs)"

fun skip_log :: "string list \<Rightarrow> log_line list" where
  "skip_log [] = []"
| "skip_log (f # fs) =
     (case parse_backup_timestamp f of
        Some ts \<Rightarrow> skip_log fs
      | None \<Rightarrow> Skipping f # skip_log fs)"

text \<open>The three tests on a timestamp, at lines 182, 189 and 201.\<close>

definition in_daily :: "datetime \<Rightarrow> datetime \<Rightarrow> bool" where
  "in_daily daily_cutoff ts \<longleftrightarrow> dt_le daily_cutoff ts"

definition in_weekly :: "datetime \<Rightarrow> datetime \<Rightarrow> datetime \<Rightarrow> bool" where
  "in_weekly daily_cutoff weekly_cutoff ts \<longleftrightarrow> dt_le weekly_cutoff ts \<and> dt_less ts daily_cutoff"

definition in_monthly :: "datetime \<Rightarrow> datetime \<Rightarrow> datetime \<Rightarrow> bool" where
  "in_monthly weekly_cutoff monthly_cutoff ts \<longleftrightarrow>
     dt_le monthly_cutoff ts \<and> dt_less ts weekly_cutoff"

definition iso_key :: "datetime \<Rightarrow> int \<times> int" where
  "iso_key ts = (case isocalendar ts of (y, w, d) \<Rightarrow> (y, w))"

definition month_key :: "datetime \<Rightarrow> int \<times> int" where
  "month_key ts = (year ts, month ts)"

definition daily_keep :: "datetime \<Rightarrow> entry list \<Rightarrow> string list" where
  "daily_keep daily_cutoff entries = map fst (filter (\<lambda>(f, ts). in_daily daily_cutoff ts) entries)"

text \<open>
  The loops at lines 188 to 192 and 200 to 204 have one shape: a dictionary from bucket
  key to entry, in which an entry in range replaces the bucket's entry when the key is
  new or its timestamp is strictly greater. The dictionary is an association list.
\<close>

fun bucket_loop ::
  "(datetime \<Rightarrow> bool) \<Rightarrow> (datetime \<Rightarrow> int \<times> int) \<Rightarrow> entry list
     \<Rightarrow> ((int \<times> int) \<times> entry) list \<Rightarrow> ((int \<times> int) \<times> entry) list" where
  "bucket_loop rng key [] dict = dict"
| "bucket_loop rng key ((f, ts) # es) dict =
     (if rng ts
      then (case map_of dict (key ts) of
              None \<Rightarrow> bucket_loop rng key es (AList.update (key ts) (f, ts) dict)
            | Some (g, t) \<Rightarrow>
                if dt_less t ts
                then bucket_loop rng key es (AList.update (key ts) (f, ts) dict)
                else bucket_loop rng key es dict)
      else bucket_loop rng key es dict)"

definition weekly_dict :: "datetime \<Rightarrow> datetime \<Rightarrow> entry list \<Rightarrow> ((int \<times> int) \<times> entry) list" where
  "weekly_dict daily_cutoff weekly_cutoff entries =
     bucket_loop (in_weekly daily_cutoff weekly_cutoff) iso_key entries []"

definition monthly_dict :: "datetime \<Rightarrow> datetime \<Rightarrow> entry list \<Rightarrow> ((int \<times> int) \<times> entry) list" where
  "monthly_dict weekly_cutoff monthly_cutoff entries =
     bucket_loop (in_monthly weekly_cutoff monthly_cutoff) month_key entries []"

text \<open>The set \<^verbatim>\<open>keep\<close> as it stands at line 209.\<close>

definition keep_set :: "datetime \<Rightarrow> datetime \<Rightarrow> datetime \<Rightarrow> entry list \<Rightarrow> string set" where
  "keep_set daily_cutoff weekly_cutoff monthly_cutoff entries =
     set (daily_keep daily_cutoff entries)
     \<union> set (map (\<lambda>(k, f, ts). f) (weekly_dict daily_cutoff weekly_cutoff entries))
     \<union> set (map (\<lambda>(k, f, ts). f) (monthly_dict weekly_cutoff monthly_cutoff entries))"

text \<open>The entries the loop at line 210 tries to remove, in its order.\<close>

definition delete_list :: "string set \<Rightarrow> entry list \<Rightarrow> string list" where
  "delete_list keep entries = map fst (filter (\<lambda>(f, ts). f \<notin> keep) entries)"

text \<open>Lines 210 to 216: a failing \<^verbatim>\<open>unlink\<close> is caught and logged, and the loop goes on.\<close>

fun delete_loop :: "string set \<Rightarrow> entry list \<Rightarrow> fs \<Rightarrow> fs \<times> log_line list" where
  "delete_loop keep [] d = (d, [])"
| "delete_loop keep ((f, ts) # es) d =
     (if f \<notin> keep
      then (case unlink d f of
              Inr d' \<Rightarrow> (case delete_loop keep es d' of (d'', lg) \<Rightarrow> (d'', Deleting f # lg))
            | Inl e \<Rightarrow>
                (case delete_loop keep es d of
                   (d'', lg) \<Rightarrow> (d'', Deleting f # Cannot_delete f e # lg)))
      else delete_loop keep es d)"

text \<open>
  The three cutoffs of a run, \<^verbatim>\<open>now - timedelta(days=7)\<close>, \<^verbatim>\<open>now - timedelta(weeks=4)\<close>
  and \<^verbatim>\<open>now - timedelta(days=90)\<close>. They are computed before the first removal, so an
  \<^verbatim>\<open>OverflowError\<close> of any of them leaves the directory as it was.
\<close>

definition cutoffs :: "datetime \<Rightarrow> exn + (datetime \<times> datetime \<times> datetime)" where
  "cutoffs now =
     (case dt_sub_days now 7 of
        Inl e \<Rightarrow> Inl e
      | Inr daily_cutoff \<Rightarrow>
          (case dt_sub_days now 28 of
             Inl e \<Rightarrow> Inl e
           | Inr weekly_cutoff \<Rightarrow>
               (case dt_sub_days now 90 of
                  Inl e \<Rightarrow> Inl e
                | Inr monthly_cutoff \<Rightarrow> Inr (daily_cutoff, weekly_cutoff, monthly_cutoff))))"

text \<open>The list \<^verbatim>\<open>entries\<close> of a run for the database \<open>db\<close>.\<close>

definition run_entries :: "string list \<Rightarrow> string \<Rightarrow> entry list" where
  "run_entries listing db = parse_entries (sort (glob listing db))"

text \<open>
  \<^verbatim>\<open>rotate_backups\<close>, with the clock reading \<open>now\<close> as a parameter. The result is the
  exception raised, or the directory after the run with the lines logged.
\<close>

definition rotate_backups :: "fs \<Rightarrow> string \<Rightarrow> datetime \<Rightarrow> exn + (fs \<times> log_line list)" where
  "rotate_backups d db now =
     (let files = sort (glob (names d) db)
      in if files = [] then Inr (d, [])
         else
           let entries = parse_entries files
           in if entries = [] then Inr (d, skip_log files)
              else (case cutoffs now of
                      Inl e \<Rightarrow> Inl e
                    | Inr (daily_cutoff, weekly_cutoff, monthly_cutoff) \<Rightarrow>
                        let keep = keep_set daily_cutoff weekly_cutoff monthly_cutoff entries
                        in (case delete_loop keep entries d of
                              (d', lg) \<Rightarrow> Inr (d', skip_log files @ lg))))"

subsection \<open>Notions for stating the properties\<close>

text \<open>
  The keep-set and the delete-set a run computes from a listing: \<^verbatim>\<open>keep\<close> at line 209
  and the entries for which the test at line 211 succeeds. A run that returns early
  at line 163 or 174 keeps and deletes nothing.
\<close>

definition planned_keep :: "string list \<Rightarrow> string \<Rightarrow> datetime \<Rightarrow> exn + string set" where
  "planned_keep listing db now =
     (let entries = run_entries listing db
      in if entries = [] then Inr {}
         else (case cutoffs now of
                 Inl e \<Rightarrow> Inl e
               | Inr (daily_cutoff, weekly_cutoff, monthly_cutoff) \<Rightarrow>
                   Inr (keep_set daily_cutoff weekly_cutoff monthly_cutoff entries)))"

definition planned_deletions :: "string list \<Rightarrow> string \<Rightarrow> datetime \<Rightarrow> exn + string list" where
  "planned_deletions listing db now =
     (let entries = run_entries listing db
      in if entries = [] then Inr []
         else (case cutoffs now of
                 Inl e \<Rightarrow> Inl e
               | Inr (daily_cutoff, weekly_cutoff, monthly_cutoff) \<Rightarrow>
                   Inr (delete_list
                          (keep_set daily_cutoff weekly_cutoff monthly_cutoff entries) entries)))"

text \<open>
  The entry a bucket holds after the loop has seen the bucket's entries \<open>es\<close> in order,
  starting from \<open>cur\<close>: the first of those with the latest timestamp.
\<close>

fun first_latest :: "entry option \<Rightarrow> entry list \<Rightarrow> entry option" where
  "first_latest cur [] = cur"
| "first_latest None (e # es) = first_latest (Some e) es"
| "first_latest (Some (g, t)) ((f, ts) # es) =
     first_latest (Some (if dt_less t ts then (f, ts) else (g, t))) es"

text \<open>The entries of one bucket: those in the tier's range \<open>rng\<close> whose key is \<open>k\<close>.\<close>

definition bucket ::
  "(datetime \<Rightarrow> bool) \<Rightarrow> (datetime \<Rightarrow> int \<times> int) \<Rightarrow> int \<times> int \<Rightarrow> entry list \<Rightarrow> entry list" where
  "bucket rng key k es = filter (\<lambda>(f, ts). rng ts \<and> key ts = k) es"

text \<open>
  The text \<^verbatim>\<open>strftime\<close> gives for a valid instant: two and four decimal digits with
  leading zeros, and the whole timestamp \<^verbatim>\<open>YYYYMMDD_HHMMSS\<close>.
\<close>

definition two :: "nat \<Rightarrow> string" where
  "two n = [digit_char (n div 10), digit_char (n mod 10)]"

definition four :: "nat \<Rightarrow> string" where
  "four n = [digit_char (n div 1000), digit_char (n div 100 mod 10),
             digit_char (n div 10 mod 10), digit_char (n mod 10)]"

definition date_part :: "datetime \<Rightarrow> string" where
  "date_part t = four (nat (year t)) @ two (nat (month t)) @ two (nat (day t))"

definition time_part :: "datetime \<Rightarrow> string" where
  "time_part t = two (nat (hour t)) @ two (nat (minute t)) @ two (nat (second t))"

definition stamp :: "datetime \<Rightarrow> string" where
  "stamp t = four (nat (year t)) @ two (nat (month t)) @ two (nat (day t)) @ CHR ''_'' #
             two (nat (hour t)) @ two (nat (minute t)) @ two (nat (second t))"

subsection \<open>A directory for the examples\<close>

text \<open>
  The instant and the archives of the specification's example scenarios, with an
  archive of the same second written under a longer name, one exactly seven days old,
  one dated after \<open>example_now\<close>, and one archive that cannot be removed.
\<close>

definition ymd_hms :: "int \<Rightarrow> int \<Rightarrow> int \<Rightarrow> int \<Rightarrow> int \<Rightarrow> int \<Rightarrow> datetime" where
  "ymd_hms y m d hh mm ss =
     \<lparr>year = y, month = m, day = d, hour = hh, minute = mm, second = ss, microsecond = 0\<rparr>"

definition example_now :: datetime where
  "example_now = ymd_hms 2025 4 10 0 0 0"

definition example_dir :: fs where
  "example_dir =
     \<lparr>names = [''shop_20250409_020000.zip'', ''shop_20250301_020000.zip'',
                ''shop_20250305_020000.zip'', ''shop_20250101_020000.zip'',
                ''notadb_20250409_020000.zip'', ''shop_backup_final.zip'',
                ''shop_20250315_020000.zip'', ''shop_x_20250315_100000.zip'',
                ''shop_20250315_100000.zip'', ''shop_20250403_000000.zip'',
                ''shop_20250501_120000.zip''],
      protected = {''shop_20250101_020000.zip''}\<rparr>"

text \<open>
  A second listing, looked at on 2025-01-20, whose weekly range spans the turn of the
  year: 2024-12-30 and 2025-01-03 lie in ISO week 1 of 2025, 2024-12-28 in ISO week 52
  of 2024, and the monthly range holds two archives of November and one of December.
\<close>

definition year_end_now :: datetime where
  "year_end_now = ymd_hms 2025 1 20 0 0 0"

definition year_end_names :: "string list" where
  "year_end_names =
     [''shop_20241230_020000.zip'', ''shop_20250108_020000.zip'',
      ''shop_20241105_020000.zip'', ''shop_20241228_020000.zip'',
      ''shop_20241201_020000.zip'', ''shop_20250103_020000.zip'',
      ''shop_20241120_020000.zip'']"

section \<open>Properties\<close>

subsection \<open>Ordinals and dates\<close>

lemma dby_decomp:
  assumes "0 \<le> b" "b \<le> 3" "0 \<le> c" "c \<le> 24" "0 \<le> e" "e \<le> 3"
  shows "days_before_year (400 * a + 100 * b + 4 * c + e + 1)
           = 146097 * a + 36524 * b + 1461 * c + 365 * e"
proof -
  let ?y = "400 * a + 100 * b + 4 * c + e"
  have d4: "?y div 4 = 100 * a + 25 * b + c"
    by (rule int_div_pos_eq [where r = e]) (use assms in auto)
  have d100: "?y div 100 = 4 * a + b"
    by (rule int_div_pos_eq [where r = "4 * c + e"]) (use assms in auto)
  have d400: "?y div 400 = a"
    by (rule int_div_pos_eq [where r = "100 * b + 4 * c + e"]) (use assms in auto)
  show ?thesis
    unfolding days_before_year_def Let_def using d4 d100 d400 by simp
qed

lemma leap_decomp:
  assumes "0 \<le> b" "b \<le> 3" "0 \<le> c" "c \<le> 24" "0 \<le> e" "e \<le> 3"
  shows "is_leap (400 * a + 100 * b + 4 * c + e + 1) \<longleftrightarrow> (e = 3 \<and> (c \<noteq> 24 \<or> b = 3))"
proof -
  let ?Y = "400 * a + 100 * b + 4 * c + e + 1"
  show ?thesis
  proof (cases "e = 3")
    case False
    have "?Y mod 4 = e + 1"
      by (rule int_mod_pos_eq [where q = "100 * a + 25 * b + c"]) (use assms False in auto)
    then show ?thesis using assms False by (simp add: is_leap_def)
  next
    case e3: True
    have m4: "?Y mod 4 = 0"
      by (rule int_mod_pos_eq [where q = "100 * a + 25 * b + c + 1"]) (use e3 in auto)
    show ?thesis
    proof (cases "c = 24")
      case False
      have "?Y mod 100 = 4 * (c + 1)"
        by (rule int_mod_pos_eq [where q = "4 * a + b"]) (use assms e3 False in auto)
      then show ?thesis using assms e3 False m4 by (simp add: is_leap_def)
    next
      case c24: True
      have m100: "?Y mod 100 = 0"
        by (rule int_mod_pos_eq [where q = "4 * a + b + 1"]) (use e3 c24 in auto)
      show ?thesis
      proof (cases "b = 3")
        case True
        have "?Y mod 400 = 0"
          by (rule int_mod_pos_eq [where q = "a + 1"]) (use e3 c24 True in auto)
        then show ?thesis using e3 c24 True m4 by (simp add: is_leap_def)
      next
        case False
        have "?Y mod 400 = 100 * (b + 1)"
          by (rule int_mod_pos_eq [where q = "a"]) (use assms e3 c24 False in auto)
        then show ?thesis using assms e3 c24 False m4 m100 by (simp add: is_leap_def)
      qed
    qed
  qed
qed


lemma month_part:
  fixes r :: int and lp :: bool
  assumes r: "0 \<le> r" "r \<le> 364"
    and m_def: "m = (r + 50) div 32"
    and p_def: "p = DAYS_BEFORE_MONTH ! nat m + (if 2 < m \<and> lp then 1 else 0)"
  shows "1 \<le> m \<and> m \<le> 12 \<and>
    (r < p \<longrightarrow> 2 \<le> m \<and> p - (DAYS_IN_MONTH ! nat (m - 1) + (if m - 1 = 2 \<and> lp then 1 else 0))
            = DAYS_BEFORE_MONTH ! nat (m - 1) + (if 2 < m - 1 \<and> lp then 1 else 0)
          \<and> DAYS_BEFORE_MONTH ! nat (m - 1) + (if 2 < m - 1 \<and> lp then 1 else 0) \<le> r) \<and>
    (\<not> r < p \<longrightarrow> r - p + 1 \<le> (if m = 2 \<and> lp then 29 else DAYS_IN_MONTH ! nat m))"
proof -
  have b: "32 * m \<le> r + 50" "r + 50 < 32 * m + 32"
    unfolding m_def by presburger+
  with r have "1 \<le> m \<and> m \<le> 12" by arith
  then have cs: "m = 1 \<or> m = 2 \<or> m = 3 \<or> m = 4 \<or> m = 5 \<or> m = 6
    \<or> m = 7 \<or> m = 8 \<or> m = 9 \<or> m = 10 \<or> m = 11 \<or> m = 12" by arith
  show ?thesis
    using cs b r unfolding p_def
    by (elim disjE) (simp_all add: DAYS_BEFORE_MONTH_def DAYS_IN_MONTH_def)
qed

lemma ord2ymd_props:
  assumes res: "ord2ymd n = (y, m, d)"
  shows "1 \<le> m \<and> m \<le> 12 \<and> 1 \<le> d \<and> d \<le> days_in_month y m \<and> ymd2ord y m d = n"
proof -
  define a where "a = (n - 1) div 146097"
  define r400 where "r400 = (n - 1) mod 146097"
  define b where "b = r400 div 36524"
  define r100 where "r100 = r400 mod 36524"
  define c where "c = r100 div 1461"
  define r4 where "r4 = r100 mod 1461"
  define e where "e = r4 div 365"
  define r where "r = r4 mod 365"
  define lp where "lp \<longleftrightarrow> e = 3 \<and> (c \<noteq> 24 \<or> b = 3)"
  define mm where "mm = (r + 50) div 32"
  define p where "p = DAYS_BEFORE_MONTH ! nat mm + (if 2 < mm \<and> lp then 1 else 0)"
  have f400: "n - 1 = 146097 * a + r400" "0 \<le> r400" "r400 < 146097"
    by (simp_all add: a_def r400_def)
  have f100: "r400 = 36524 * b + r100" "0 \<le> r100" "r100 < 36524"
    by (simp_all add: b_def r100_def)
  have f4: "r100 = 1461 * c + r4" "0 \<le> r4" "r4 < 1461"
    by (simp_all add: c_def r4_def)
  have f1: "r4 = 365 * e + r" "0 \<le> r" "r \<le> 364"
    by (simp_all add: e_def r_def)
  have bb: "0 \<le> b" "b \<le> 4" using f400 f100 by arith+
  have cb: "0 \<le> c" "c \<le> 24" using f100 f4 by arith+
  have eb: "0 \<le> e" "e \<le> 4" using f4 f1 by arith+
  define Y where "Y = a * 400 + 1 + b * 100 + c * 4 + e"
  have unf: "ord2ymd n =
     (if e = 4 \<or> b = 4 then (Y - 1, 12, 31)
      else if r < p
        then (Y, mm - 1,
              r - (p - (DAYS_IN_MONTH ! nat (mm - 1) + (if mm - 1 = 2 \<and> lp then 1 else 0))) + 1)
        else (Y, mm, r - p + 1))"
    unfolding ord2ymd_def Let_def DI400Y_def DI100Y_def DI4Y_def
      Y_def p_def mm_def lp_def r_def e_def r4_def c_def r100_def b_def r400_def a_def
    by (rule refl)
  have Y: "Y = 400 * a + 100 * b + 4 * c + e + 1" by (simp add: Y_def)
  show ?thesis
  proof (cases "b = 4")
    case b4: True
    then have z: "r100 = 0" "c = 0" "e = 0" "r = 0" using f400 f100 f4 f1 cb eb by arith+
    have yv: "y = 400 * (a + 1)" "m = 12" "d = 31" using res unf b4 z Y by auto
    have dby: "days_before_year (400 * (a + 1)) = 146097 * a + 36524 * 3 + 1461 * 24 + 365 * 3"
      using dby_decomp [of 3 24 3 a] by (simp add: algebra_simps)
    have lpy: "is_leap (400 * (a + 1))"
      using leap_decomp [of 3 24 3 a] by (simp add: algebra_simps)
    show ?thesis using yv dby lpy f400 f100 b4 z
      by (simp add: ymd2ord_def days_in_month_def days_before_month_def
          DAYS_BEFORE_MONTH_def DAYS_IN_MONTH_def)
  next
    case bn4: False
    then have b3: "b \<le> 3" using bb by arith
    show ?thesis
    proof (cases "e = 4")
      case e4: True
      then have z: "r = 0" "c \<le> 23" using f100 f4 f1 by arith+
      have yv: "y = 400 * a + 100 * b + 4 * (c + 1)" "m = 12" "d = 31"
        using res unf e4 Y by auto
      have dby: "days_before_year (400 * a + 100 * b + 4 * c + 3 + 1)
                   = 146097 * a + 36524 * b + 1461 * c + 365 * 3"
        using dby_decomp [of b c 3 a] bb b3 cb by simp
      have lpy: "is_leap (400 * a + 100 * b + 4 * c + 3 + 1)"
        using leap_decomp [of b c 3 a] bb b3 cb z by simp
      show ?thesis using yv dby lpy f400 f100 f4 f1 e4 z
        by (simp add: ymd2ord_def days_in_month_def days_before_month_def
            DAYS_BEFORE_MONTH_def DAYS_IN_MONTH_def algebra_simps)
    next
      case en4: False
      then have e3: "e \<le> 3" using eb by arith
      let ?Y = "400 * a + 100 * b + 4 * c + e + 1"
      have dby: "days_before_year ?Y = 146097 * a + 36524 * b + 1461 * c + 365 * e"
        using dby_decomp [of b c e a] bb b3 cb eb e3 by simp
      have lpy: "is_leap ?Y \<longleftrightarrow> lp"
        using leap_decomp [of b c e a] bb b3 cb eb e3 by (simp add: lp_def)
      have nn: "n = 146097 * a + 36524 * b + 1461 * c + 365 * e + r + 1"
        using f400 f100 f4 f1 by arith
      note mp0 = month_part [OF f1(2) f1(3) mm_def p_def]
      have mp: "1 \<le> mm \<and> mm \<le> 12"
        "r < p \<Longrightarrow> 2 \<le> mm \<and> p - (DAYS_IN_MONTH ! nat (mm - 1) + (if mm - 1 = 2 \<and> lp then 1 else 0))
            = DAYS_BEFORE_MONTH ! nat (mm - 1) + (if 2 < mm - 1 \<and> lp then 1 else 0)
          \<and> DAYS_BEFORE_MONTH ! nat (mm - 1) + (if 2 < mm - 1 \<and> lp then 1 else 0) \<le> r"
        "\<not> r < p \<Longrightarrow> r - p + 1 \<le> (if mm = 2 \<and> lp then 29 else DAYS_IN_MONTH ! nat mm)"
        using mp0 by blast+
      show ?thesis
      proof (cases "r < p")
        case True
        have yv: "y = ?Y" "m = mm - 1"
          "d = r - (p - (DAYS_IN_MONTH ! nat (mm - 1) + (if mm - 1 = 2 \<and> lp then 1 else 0))) + 1"
          using res unf bn4 en4 True Y by auto
        from mp(2) [OF True] have m2: "2 \<le> mm"
          and pe: "p - (DAYS_IN_MONTH ! nat (mm - 1) + (if mm - 1 = 2 \<and> lp then 1 else 0))
            = DAYS_BEFORE_MONTH ! nat (mm - 1) + (if 2 < mm - 1 \<and> lp then 1 else 0)"
          and le: "DAYS_BEFORE_MONTH ! nat (mm - 1) + (if 2 < mm - 1 \<and> lp then 1 else 0) \<le> r"
          by auto
        have dle: "d \<le> days_in_month y m"
          using True yv lpy unfolding days_in_month_def by (auto simp: DAYS_IN_MONTH_def)
        show ?thesis using yv dby lpy nn m2 mp(1) pe le dle
          by (simp add: ymd2ord_def days_before_month_def)
      next
        case False
        have yv: "y = ?Y" "m = mm" "d = r - p + 1"
          using res unf bn4 en4 False Y by auto
        have dle: "d \<le> days_in_month y m"
          using mp(3) [OF False] yv lpy unfolding days_in_month_def by (auto split: if_splits)
        show ?thesis using yv dby lpy nn mp(1) dle False
          by (simp add: ymd2ord_def days_before_month_def p_def)
      qed
    qed
  qed
qed

lemma month_cases:
  "1 \<le> m \<Longrightarrow> m \<le> 12 \<Longrightarrow> m = 1 \<or> m = 2 \<or> m = 3 \<or> m = 4 \<or> m = 5 \<or> m = 6
    \<or> m = 7 \<or> m = 8 \<or> m = 9 \<or> m = 10 \<or> m = 11 \<or> m = (12::int)"
  by arith

lemma days_in_month_pos: "1 \<le> m \<Longrightarrow> m \<le> 12 \<Longrightarrow> 28 \<le> days_in_month y m"
  by (drule (1) month_cases) (auto simp: days_in_month_def DAYS_IN_MONTH_def)

lemma days_before_month_step:
  "1 \<le> m \<Longrightarrow> m \<le> 11 \<Longrightarrow>
     days_before_month y (m + 1) = days_before_month y m + days_in_month y m"
proof -
  assume "1 \<le> m" "m \<le> 11"
  then have "m = 1 \<or> m = 2 \<or> m = 3 \<or> m = 4 \<or> m = 5 \<or> m = 6
    \<or> m = 7 \<or> m = 8 \<or> m = 9 \<or> m = 10 \<or> m = 11" by arith
  then show ?thesis
    by (elim disjE)
      (simp_all add: days_before_month_def days_in_month_def DAYS_BEFORE_MONTH_def
        DAYS_IN_MONTH_def)
qed

lemma days_before_month_mono:
  assumes "1 \<le> m" "m \<le> m'" "m' \<le> 12"
  shows "days_before_month y m \<le> days_before_month y m'"
  using assms(2,1,3)
proof (induction m' rule: int_ge_induct)
  case base
  show ?case by simp
next
  case (step i)
  then have "days_before_month y (i + 1) = days_before_month y i + days_in_month y i"
    by (intro days_before_month_step) auto
  moreover have "28 \<le> days_in_month y i" using step by (intro days_in_month_pos) auto
  ultimately show ?case using step by auto
qed

lemma days_before_month_last:
  "days_before_month y 12 + days_in_month y 12 = 365 + (if is_leap y then 1 else 0)"
  by (simp add: days_before_month_def days_in_month_def DAYS_BEFORE_MONTH_def DAYS_IN_MONTH_def)

lemma div_step:
  fixes y k :: int
  assumes k: "0 < k"
  shows "y div k = (y - 1) div k + (if y mod k = 0 then 1 else 0)"
proof -
  define q where "q = (y - 1) div k"
  define r where "r = (y - 1) mod k"
  have "k * q + r = y - 1" unfolding q_def r_def by (rule mult_div_mod_eq)
  then have y: "y = k * q + r + 1" by arith
  have r: "0 \<le> r" "r < k"
    unfolding r_def using k by (rule pos_mod_sign, rule pos_mod_bound)
  show ?thesis
  proof (cases "r + 1 = k")
    case True
    then have eq: "y = k * (q + 1) + 0" using y by (simp add: algebra_simps)
    have "y div k = q + 1" by (rule int_div_pos_eq [OF eq]) (use k in auto)
    moreover have "y mod k = 0" by (rule int_mod_pos_eq [OF eq]) (use k in auto)
    ultimately show ?thesis unfolding q_def by simp
  next
    case False
    have eq: "y = k * q + (r + 1)" using y by simp
    have "y div k = q" by (rule int_div_pos_eq [OF eq]) (use r False in auto)
    moreover have "y mod k = r + 1" by (rule int_mod_pos_eq [OF eq]) (use r False in auto)
    ultimately show ?thesis unfolding q_def using r by simp
  qed
qed


lemma days_before_year_step:
  "days_before_year (y + 1) = days_before_year y + 365 + (if is_leap y then 1 else 0)"
proof -
  define A where "A = (y - 1) div 4"
  define B where "B = (y - 1) div 100"
  define C where "C = (y - 1) div 400"
  have m4: "y mod 100 = 0 \<Longrightarrow> y mod 4 = 0"
    using mod_mod_cancel [of 4 100 y] by simp
  have m100: "y mod 400 = 0 \<Longrightarrow> y mod 100 = 0"
    using mod_mod_cancel [of 100 400 y] by simp
  have d4: "y div 4 = A + (if y mod 4 = 0 then 1 else 0)"
    unfolding A_def by (rule div_step) simp
  have d100: "y div 100 = B + (if y mod 100 = 0 then 1 else 0)"
    unfolding B_def by (rule div_step) simp
  have d400: "y div 400 = C + (if y mod 400 = 0 then 1 else 0)"
    unfolding C_def by (rule div_step) simp
  have l: "days_before_year (y + 1) = y * 365 + y div 4 - y div 100 + y div 400"
    unfolding days_before_year_def Let_def by simp
  have r: "days_before_year y = (y - 1) * 365 + A - B + C"
    unfolding days_before_year_def Let_def A_def B_def C_def by (rule refl)
  define a where "a = y div 4"
  define b where "b = y div 100"
  define c where "c = y div 400"
  have lin: "days_before_year (y + 1) = y * 365 + a - b + c"
    unfolding l a_def b_def c_def by (rule refl)
  show ?thesis
  proof (cases "y mod 4 = 0")
    case F4: False
    have F100: "y mod 100 \<noteq> 0"
    proof
      assume "y mod 100 = 0"
      then have "y mod 4 = 0" by (rule m4)
      with F4 show False by (rule notE)
    qed
    have F400: "y mod 400 \<noteq> 0"
    proof
      assume "y mod 400 = 0"
      then have "y mod 100 = 0" by (rule m100)
      with F100 show False by (rule notE)
    qed
    have "a = A" "b = B" "c = C"
      unfolding a_def b_def c_def using d4 d100 d400 F4 F100 F400 by (simp_all only: if_False if_True add_0_right simp_thms)
    moreover have "\<not> is_leap y" unfolding is_leap_def using F4 by (intro notI, elim conjE) (rule notE)
    ultimately show ?thesis unfolding lin r by simp
  next
    case T4: True
    show ?thesis
    proof (cases "y mod 100 = 0")
      case F100: False
      have F400: "y mod 400 \<noteq> 0"
      proof
        assume "y mod 400 = 0"
        then have "y mod 100 = 0" by (rule m100)
        with F100 show False by (rule notE)
      qed
      have "a = A + 1" "b = B" "c = C"
        unfolding a_def b_def c_def using d4 d100 d400 T4 F100 F400
        by (simp_all only: if_False if_True add_0_right simp_thms)
      moreover have "is_leap y" unfolding is_leap_def using T4 F100 by (intro conjI disjI1)
      ultimately show ?thesis unfolding lin r by simp
    next
      case T100: True
      show ?thesis
      proof (cases "y mod 400 = 0")
        case T400: True
        have "a = A + 1" "b = B + 1" "c = C + 1"
          unfolding a_def b_def c_def using d4 d100 d400 T4 T100 T400
          by (simp_all only: if_False if_True add_0_right simp_thms)
        moreover have "is_leap y" unfolding is_leap_def using T4 T400 by (intro conjI disjI2)
        ultimately show ?thesis unfolding lin r by simp
      next
        case F400: False
        have "a = A + 1" "b = B + 1" "c = C"
          unfolding a_def b_def c_def using d4 d100 d400 T4 T100 F400
          by (simp_all only: if_False if_True add_0_right simp_thms)
        moreover have "\<not> is_leap y" unfolding is_leap_def using T100 F400 by (intro notI, elim conjE disjE) (erule notE, assumption)+
        ultimately show ?thesis unfolding lin r by simp
      qed
    qed
  qed
qed


lemma days_before_year_mono:
  assumes "y \<le> y'"
  shows "days_before_year y \<le> days_before_year y'"
  using assms
proof (induction y' rule: int_ge_induct)
  case base
  show ?case by simp
next
  case (step i)
  then show ?case using days_before_year_step [of i] by (simp split: if_splits)
qed

lemma ymd2ord_less:
  assumes v: "1 \<le> m" "m \<le> 12" "1 \<le> d" "d \<le> days_in_month y m"
    and v': "1 \<le> m'" "m' \<le> 12" "1 \<le> d'" "d' \<le> days_in_month y' m'"
    and lt: "(y, m, d) < (y', m', d')"
  shows "ymd2ord y m d < ymd2ord y' m' d'"
proof -
  have in_year: "days_before_month y m + d \<le> 365 + (if is_leap y then 1 else 0)"
  proof -
    have "days_before_month y m + d \<le> days_before_month y m + days_in_month y m"
      using v by simp
    also have "\<dots> \<le> days_before_month y 12 + days_in_month y 12"
    proof (cases "m = 12")
      case True then show ?thesis by simp
    next
      case False
      then have "days_before_month y m + days_in_month y m = days_before_month y (m + 1)"
        using v days_before_month_step [of m y] by simp
      also have "\<dots> \<le> days_before_month y 12"
        using v False by (intro days_before_month_mono) auto
      finally show ?thesis using days_in_month_pos [of 12 y] by simp
    qed
    finally show ?thesis by (simp add: days_before_month_last)
  qed
  have nonneg: "0 \<le> days_before_month y' m'"
    using days_before_month_mono [of 1 m' y'] v'
    by (simp add: days_before_month_def DAYS_BEFORE_MONTH_def)
  have "y < y' \<or> (y = y' \<and> m < m') \<or> (y = y' \<and> m = m' \<and> d < d')"
    using lt by simp arith
  then consider "y < y'" | "y = y'" "m < m'" | "y = y'" "m = m'" "d < d'"
    by blast
  then show ?thesis
  proof cases
    case 1
    then have "days_before_year (y + 1) \<le> days_before_year y'"
      by (intro days_before_year_mono) simp
    then show ?thesis using in_year nonneg v' days_before_year_step [of y]
      by (simp add: ymd2ord_def split: if_splits)
  next
    case 2
    then have "days_before_month y m + days_in_month y m = days_before_month y (m + 1)"
      using v v' days_before_month_step [of m y] by simp
    moreover have "days_before_month y (m + 1) \<le> days_before_month y m'"
      using 2 v v' by (intro days_before_month_mono) auto
    ultimately show ?thesis using 2 v v' by (simp add: ymd2ord_def)
  next
    case 3
    then show ?thesis by (simp add: ymd2ord_def)
  qed
qed

lemma ord2ymd_mono:
  assumes "n \<le> n'"
  shows "ord2ymd n \<le> ord2ymd n'"
proof (rule ccontr)
  obtain y m d where a: "ord2ymd n = (y, m, d)" by (cases "ord2ymd n") auto
  obtain y' m' d' where b: "ord2ymd n' = (y', m', d')" by (cases "ord2ymd n'") auto
  assume "\<not> ord2ymd n \<le> ord2ymd n'"
  then have lt: "(y', m', d') < (y, m, d)" unfolding a b by (simp only: not_le)
  have "ymd2ord y' m' d' < ymd2ord y m d"
    using ord2ymd_props [OF a] ord2ymd_props [OF b] lt by (intro ymd2ord_less) blast+
  then show False using ord2ymd_props [OF a] ord2ymd_props [OF b] assms by simp
qed

lemma dt_sub_days_mono:
  assumes x: "dt_sub_days t a = Inr x" and y: "dt_sub_days t b = Inr y" and ba: "b \<le> a"
  shows "dt_le x y"
proof -
  let ?o = "ymd2ord (year t) (month t) (day t)"
  obtain y1 m1 d1 where p1: "ord2ymd (?o - a) = (y1, m1, d1)" by (cases "ord2ymd (?o - a)") auto
  obtain y2 m2 d2 where p2: "ord2ymd (?o - b) = (y2, m2, d2)" by (cases "ord2ymd (?o - b)") auto
  have x': "x = t\<lparr>year := y1, month := m1, day := d1\<rparr>"
    using x p1 by (simp add: dt_sub_days_def Let_def split: if_splits)
  have y': "y = t\<lparr>year := y2, month := m2, day := d2\<rparr>"
    using y p2 by (simp add: dt_sub_days_def Let_def split: if_splits)
  have "ord2ymd (?o - a) \<le> ord2ymd (?o - b)" using ba by (intro ord2ymd_mono) simp
  then have "(y1, m1, d1) \<le> (y2, m2, d2)" unfolding p1 p2 .
  then show ?thesis unfolding x' y' dt_le_def dt_key_def by auto
qed

lemma cutoffs_ordered:
  assumes "cutoffs now = Inr (dc, wc, mc)"
  shows "dt_le mc wc" and "dt_le wc dc"
proof -
  from assms have c: "dt_sub_days now 7 = Inr dc" "dt_sub_days now 28 = Inr wc"
    "dt_sub_days now 90 = Inr mc"
    by (auto simp: cutoffs_def split: sum.splits)
  show "dt_le mc wc" by (rule dt_sub_days_mono [OF c(3) c(2)]) simp
  show "dt_le wc dc" by (rule dt_sub_days_mono [OF c(2) c(1)]) simp
qed

lemma dt_less_iff: "dt_less a b \<longleftrightarrow> \<not> dt_le b a"
  unfolding dt_less_def dt_le_def by (rule less_le_not_le [THEN trans]) auto

lemma dt_le_trans: "dt_le a b \<Longrightarrow> dt_le b c \<Longrightarrow> dt_le a c"
  unfolding dt_le_def by (rule order_trans)

lemma dt_le_refl: "dt_le a a"
  unfolding dt_le_def by (rule order_refl)

lemma dt_le_total: "dt_le a b \<or> dt_le b a"
  unfolding dt_le_def by (rule linear)

subsection \<open>The first of the latest entries\<close>

lemma first_latest_keep:
  "\<forall>x\<in>set xs. dt_le (snd x) (snd c) \<Longrightarrow> first_latest (Some c) xs = Some c"
proof (induction xs)
  case Nil
  show ?case by simp
next
  case (Cons x xs)
  obtain f ts where x: "x = (f, ts)" by (cases x)
  obtain g t where c: "c = (g, t)" by (cases c)
  from Cons.prems have "\<not> dt_less t ts" unfolding x c by (simp add: dt_less_iff)
  then show ?case using Cons unfolding x c by simp
qed

lemma first_latest_decomp_intro:
  assumes "\<forall>x\<in>set pre. dt_less (snd x) (snd e)"
    and "\<forall>x\<in>set post. dt_le (snd x) (snd e)"
    and "case cur of None \<Rightarrow> True | Some c \<Rightarrow> dt_less (snd c) (snd e)"
  shows "first_latest cur (pre @ e # post) = Some e"
  using assms
proof (induction pre arbitrary: cur)
  case Nil
  obtain f ts where e: "e = (f, ts)" by (cases e)
  show ?case
  proof (cases cur)
    case None
    then show ?thesis using Nil first_latest_keep [of post e] by simp
  next
    case (Some c)
    obtain g t where c: "c = (g, t)" by (cases c)
    show ?thesis using Nil Some first_latest_keep [of post e] unfolding c e by simp
  qed
next
  case (Cons x pre)
  obtain f ts where x: "x = (f, ts)" by (cases x)
  have xe: "dt_less ts (snd e)" using Cons.prems(1) unfolding x by simp
  show ?case
  proof (cases cur)
    case None
    have "first_latest (Some x) (pre @ e # post) = Some e"
      using Cons.prems xe by (intro Cons.IH) (auto simp: x)
    then show ?thesis using None by simp
  next
    case (Some c)
    obtain g t where c: "c = (g, t)" by (cases c)
    have "first_latest (Some (if dt_less t ts then (f, ts) else (g, t))) (pre @ e # post) = Some e"
      using Cons.prems xe Some by (intro Cons.IH) (auto simp: c)
    then show ?thesis using Some unfolding c x by simp
  qed
qed

lemma first_latest_Some_decomp:
  assumes "first_latest (Some c) xs = Some e"
  shows "(e = c \<and> (\<forall>x\<in>set xs. dt_le (snd x) (snd c))) \<or>
         (\<exists>pre post. xs = pre @ e # post \<and> dt_less (snd c) (snd e) \<and>
            (\<forall>x\<in>set pre. dt_less (snd x) (snd e)) \<and> (\<forall>x\<in>set post. dt_le (snd x) (snd e)))"
  using assms
proof (induction xs arbitrary: c)
  case Nil
  then show ?case by simp
next
  case (Cons x xs)
  obtain f ts where x: "x = (f, ts)" by (cases x)
  obtain g t where c: "c = (g, t)" by (cases c)
  show ?case
  proof (cases "dt_less t ts")
    case True
    then have "first_latest (Some x) xs = Some e" using Cons.prems unfolding x c by simp
    from Cons.IH [OF this] show ?thesis
    proof (elim disjE conjE exE)
      assume "e = x" "\<forall>y\<in>set xs. dt_le (snd y) (snd x)"
      then have "x # xs = [] @ e # xs \<and> dt_less (snd c) (snd e) \<and>
            (\<forall>y\<in>set []. dt_less (snd y) (snd e)) \<and> (\<forall>y\<in>set xs. dt_le (snd y) (snd e))"
        using True unfolding x c by simp
      then show ?thesis by blast
    next
      fix pre post
      assume h: "xs = pre @ e # post" "dt_less (snd x) (snd e)"
        "\<forall>y\<in>set pre. dt_less (snd y) (snd e)" "\<forall>y\<in>set post. dt_le (snd y) (snd e)"
      have "dt_less (snd c) (snd e)"
        using True h(2) unfolding x c dt_less_def by auto
      then have "x # xs = (x # pre) @ e # post \<and> dt_less (snd c) (snd e) \<and>
            (\<forall>y\<in>set (x # pre). dt_less (snd y) (snd e)) \<and> (\<forall>y\<in>set post. dt_le (snd y) (snd e))"
        using h by simp
      then show ?thesis by blast
    qed
  next
    case False
    then have xc: "dt_le ts t" by (simp add: dt_less_iff)
    from False have "first_latest (Some c) xs = Some e" using Cons.prems unfolding x c by simp
    from Cons.IH [OF this] show ?thesis
    proof (elim disjE conjE exE)
      assume "e = c" "\<forall>y\<in>set xs. dt_le (snd y) (snd c)"
      then show ?thesis using xc unfolding x c by simp
    next
      fix pre post
      assume h: "xs = pre @ e # post" "dt_less (snd c) (snd e)"
        "\<forall>y\<in>set pre. dt_less (snd y) (snd e)" "\<forall>y\<in>set post. dt_le (snd y) (snd e)"
      have "dt_less (snd x) (snd e)"
        using xc h(2) unfolding x c dt_less_def dt_le_def by auto
      then have "x # xs = (x # pre) @ e # post \<and> dt_less (snd c) (snd e) \<and>
            (\<forall>y\<in>set (x # pre). dt_less (snd y) (snd e)) \<and> (\<forall>y\<in>set post. dt_le (snd y) (snd e))"
        using h by simp
      then show ?thesis by blast
    qed
  qed
qed

lemma first_latest_None_decomp:
  assumes "first_latest None xs = Some e"
  shows "\<exists>pre post. xs = pre @ e # post \<and>
            (\<forall>x\<in>set pre. dt_less (snd x) (snd e)) \<and> (\<forall>x\<in>set post. dt_le (snd x) (snd e))"
proof (cases xs)
  case Nil
  then show ?thesis using assms by simp
next
  case (Cons x xs')
  then have "first_latest (Some x) xs' = Some e" using assms by simp
  from first_latest_Some_decomp [OF this] show ?thesis
  proof (elim disjE conjE exE)
    assume "e = x" "\<forall>y\<in>set xs'. dt_le (snd y) (snd x)"
    then have "xs = [] @ e # xs' \<and> (\<forall>y\<in>set []. dt_less (snd y) (snd e)) \<and>
        (\<forall>y\<in>set xs'. dt_le (snd y) (snd e))" using Cons by simp
    then show ?thesis by blast
  next
    fix pre post
    assume h: "xs' = pre @ e # post" "dt_less (snd x) (snd e)"
      "\<forall>y\<in>set pre. dt_less (snd y) (snd e)" "\<forall>y\<in>set post. dt_le (snd y) (snd e)"
    then have "xs = (x # pre) @ e # post \<and> (\<forall>y\<in>set (x # pre). dt_less (snd y) (snd e)) \<and>
        (\<forall>y\<in>set post. dt_le (snd y) (snd e))" using Cons by simp
    then show ?thesis by blast
  qed
qed

lemma first_latest_nonempty:
  "xs \<noteq> [] \<Longrightarrow> \<exists>e. first_latest None xs = Some e"
proof -
  have some: "\<exists>e. first_latest (Some c) ys = Some e" for c ys
  proof (induction ys arbitrary: c)
    case Nil show ?case by simp
  next
    case (Cons y ys)
    obtain f ts where y: "y = (f, ts)" by (cases y)
    obtain g t where c: "c = (g, t)" by (cases c)
    show ?case using Cons [of "if dt_less t ts then (f, ts) else (g, t)"] unfolding y c by simp
  qed
  assume "xs \<noteq> []"
  then obtain x xs' where "xs = x # xs'" by (cases xs) auto
  then show ?thesis using some [of x xs'] by simp
qed

lemma first_latest_empty_iff: "first_latest None xs = None \<longleftrightarrow> xs = []"
  using first_latest_nonempty [of xs] by (cases xs) auto

lemma first_latest_max:
  assumes "first_latest None xs = Some e"
  shows "e \<in> set xs" and "\<forall>x\<in>set xs. dt_le (snd x) (snd e)"
proof -
  from first_latest_None_decomp [OF assms] obtain pre post where
    d: "xs = pre @ e # post" "\<forall>x\<in>set pre. dt_less (snd x) (snd e)"
       "\<forall>x\<in>set post. dt_le (snd x) (snd e)" by blast
  show "e \<in> set xs" using d(1) by simp
  have "dt_le (snd x) (snd e)" if "x \<in> set pre" for x
    using d(2) that unfolding dt_less_def dt_le_def by auto
  then show "\<forall>x\<in>set xs. dt_le (snd x) (snd e)"
    using d(1,3) by (auto simp: dt_le_refl)
qed

lemma first_latest_filter:
  assumes "first_latest None xs = Some e" and "P e"
  shows "first_latest None (filter P xs) = Some e"
proof -
  from first_latest_None_decomp [OF assms(1)] obtain pre post where
    d: "xs = pre @ e # post" "\<forall>x\<in>set pre. dt_less (snd x) (snd e)"
       "\<forall>x\<in>set post. dt_le (snd x) (snd e)" by blast
  have "filter P xs = filter P pre @ e # filter P post" using d(1) assms(2) by simp
  moreover have "first_latest None (filter P pre @ e # filter P post) = Some e"
    using d(2,3) by (intro first_latest_decomp_intro) auto
  ultimately show ?thesis by simp
qed

subsection \<open>Entries\<close>

lemma parse_entries_conv:
  "parse_entries fs = map (\<lambda>f. (f, the (parse_backup_timestamp f)))
                          (filter (\<lambda>f. parse_backup_timestamp f \<noteq> None) fs)"
  by (induction fs) (auto split: option.splits)

lemma set_parse_entries:
  "(f, ts) \<in> set (parse_entries fs) \<longleftrightarrow> f \<in> set fs \<and> parse_backup_timestamp f = Some ts"
  by (induction fs) (auto split: option.splits)


lemma parse_entries_filter:
  "parse_entries (filter P fs) = filter (\<lambda>(f, ts). P f) (parse_entries fs)"
  by (induction fs) (auto split: option.splits)

lemma set_run_entries:
  "(f, ts) \<in> set (run_entries listing db) \<longleftrightarrow>
     f \<in> set listing \<and> fnmatch (db @ ''_*.zip'') f \<and> parse_backup_timestamp f = Some ts"
  by (auto simp: run_entries_def set_parse_entries glob_def)

lemma run_entries_fun:
  "(f, ts) \<in> set (run_entries listing db) \<Longrightarrow> (f, ts') \<in> set (run_entries listing db)
     \<Longrightarrow> ts' = ts"
  by (simp add: set_run_entries)


lemma run_entries_filter:
  "run_entries (filter P listing) db = filter (\<lambda>(f, ts). P f) (run_entries listing db)"
proof -
  have "glob (filter P listing) db = filter P (glob listing db)"
    by (auto simp: glob_def intro: filter_cong)
  then have "sort (glob (filter P listing) db) = filter P (sort (glob listing db))"
    by (simp add: filter_sort)
  then show ?thesis by (simp add: run_entries_def parse_entries_filter)
qed

lemma run_entries_perm:
  assumes "set l1 = set l2" "distinct l1" "distinct l2"
  shows "run_entries l1 db = run_entries l2 db"
proof -
  have "sort (glob l1 db) = sort (glob l2 db)"
    using assms by (intro sorted_distinct_set_unique) (simp_all add: glob_def)
  then show ?thesis by (simp add: run_entries_def)
qed

subsection \<open>The bucket loops\<close>

lemma bucket_loop_distinct:
  "distinct (map fst dict) \<Longrightarrow> distinct (map fst (bucket_loop rng key es dict))"
  by (induction rng key es dict rule: bucket_loop.induct)
     (auto simp: distinct_update split: option.splits)

lemma bucket_loop_map_of:
  "map_of (bucket_loop rng key es dict) k =
     first_latest (map_of dict k) (filter (\<lambda>(f, ts). rng ts \<and> key ts = k) es)"
proof (induction rng key es dict rule: bucket_loop.induct)
  case (1 rng key dict)
  show ?case by simp
next
  case (2 rng key f ts es dict)
  show ?case
  proof (cases "rng ts")
    case False
    then show ?thesis using 2 by simp
  next
    case rng: True
    show ?thesis
    proof (cases "map_of dict (key ts)")
      case None
      then show ?thesis using 2 rng by (auto simp: update_conv')
    next
      case (Some a)
      obtain g t where a: "a = (g, t)" by (cases a)
      show ?thesis using 2 rng Some unfolding a by (auto simp: update_conv')
    qed
  qed
qed

lemma dict_values:
  assumes "distinct (map fst dict)"
  shows "f \<in> set (map (\<lambda>(k, f, ts). f) dict) \<longleftrightarrow> (\<exists>k ts. map_of dict k = Some (f, ts))"
  using assms by (force simp: map_of_eq_Some_iff)

lemma weekly_dict_values:
  "f \<in> set (map (\<lambda>(k, f, ts). f) (weekly_dict dc wc es)) \<longleftrightarrow>
     (\<exists>k ts. first_latest None (bucket (in_weekly dc wc) iso_key k es) = Some (f, ts))"
  unfolding weekly_dict_def bucket_def
  by (subst dict_values) (simp_all add: bucket_loop_distinct bucket_loop_map_of)

lemma monthly_dict_values:
  "f \<in> set (map (\<lambda>(k, f, ts). f) (monthly_dict wc mc es)) \<longleftrightarrow>
     (\<exists>k ts. first_latest None (bucket (in_monthly wc mc) month_key k es) = Some (f, ts))"
  unfolding monthly_dict_def bucket_def
  by (subst dict_values) (simp_all add: bucket_loop_distinct bucket_loop_map_of)

lemma keep_set_iff:
  "f \<in> keep_set dc wc mc es \<longleftrightarrow>
     (\<exists>ts. (f, ts) \<in> set es \<and> in_daily dc ts) \<or>
     (\<exists>k ts. first_latest None (bucket (in_weekly dc wc) iso_key k es) = Some (f, ts)) \<or>
     (\<exists>k ts. first_latest None (bucket (in_monthly wc mc) month_key k es) = Some (f, ts))"
proof -
  have "f \<in> set (daily_keep dc es) \<longleftrightarrow> (\<exists>ts. (f, ts) \<in> set es \<and> in_daily dc ts)"
    by (force simp: daily_keep_def)
  then show ?thesis
    unfolding keep_set_def Un_iff weekly_dict_values monthly_dict_values by simp
qed

lemma bucket_rep_props:
  assumes "first_latest None (bucket rng key k es) = Some (f, ts)"
  shows "(f, ts) \<in> set es" "rng ts" "key ts = k"
    and "\<forall>(g, t)\<in>set es. rng t \<and> key t = k \<longrightarrow> dt_le t ts"
proof -
  from first_latest_max [OF assms]
  have m: "(f, ts) \<in> set (bucket rng key k es)"
    "\<forall>x\<in>set (bucket rng key k es). dt_le (snd x) ts" by simp_all
  from m(1) show "(f, ts) \<in> set es" "rng ts" "key ts = k" by (auto simp: bucket_def)
  from m(2) show "\<forall>(g, t)\<in>set es. rng t \<and> key t = k \<longrightarrow> dt_le t ts"
    by (auto simp: bucket_def)
qed

lemma keep_set_subset: "f \<in> keep_set dc wc mc es \<Longrightarrow> f \<in> fst ` set es"
  unfolding keep_set_iff by (auto dest!: bucket_rep_props(1) intro: rev_image_eqI)

lemma bucket_occupied:
  assumes "(f, ts) \<in> set es" "rng ts"
  shows "\<exists>g t. first_latest None (bucket rng key (key ts) es) = Some (g, t)"
proof -
  have "bucket rng key (key ts) es \<noteq> []"
    using assms by (auto simp: bucket_def filter_empty_conv)
  from first_latest_nonempty [OF this] show ?thesis by auto
qed

subsection \<open>The removal loop\<close>

lemma unlink_Inr:
  "unlink d f = Inr d' \<longleftrightarrow>
     f \<in> set (names d) \<and> f \<notin> protected d \<and> d' = d\<lparr>names := removeAll f (names d)\<rparr>"
  by (auto simp: unlink_def)

lemma unlink_Inl:
  "unlink d f = Inl e \<longleftrightarrow>
     (f \<notin> set (names d) \<and> e = FileNotFoundError) \<or>
     (f \<in> set (names d) \<and> f \<in> protected d \<and> e = PermissionError)"
  by (auto simp: unlink_def)

lemma delete_list_Cons:
  "delete_list keep ((f, ts) # es) = (if f \<notin> keep then f # delete_list keep es else delete_list keep es)"
  by (simp add: delete_list_def)

lemma delete_list_Nil: "delete_list keep [] = []"
  by (simp add: delete_list_def)

lemma delete_loop_names:
  "delete_loop keep es d = (d', lg) \<Longrightarrow>
     names d' = filter (\<lambda>f. f \<notin> set (delete_list keep es) \<or> f \<in> protected d) (names d)
     \<and> protected d' = protected d"
proof (induction keep es d arbitrary: d' lg rule: delete_loop.induct)
  case (1 keep d)
  then show ?case by (simp add: delete_list_Nil)
next
  case (2 keep f ts es d)
  show ?case
  proof (cases "f \<in> keep")
    case True
    then have "delete_loop keep es d = (d', lg)" using "2.prems" by simp
    from "2.IH"(3) [OF _ this] True show ?thesis by (simp add: delete_list_Cons)
  next
    case nk: False
    show ?thesis
    proof (cases "unlink d f")
      case (Inr d1)
      then have u: "f \<in> set (names d)" "f \<notin> protected d"
        "d1 = d\<lparr>names := removeAll f (names d)\<rparr>" by (simp_all add: unlink_Inr)
      have n1: "names d1 = filter (\<lambda>x. f \<noteq> x) (names d)" and p1: "protected d1 = protected d"
        unfolding u(3) by (simp_all add: removeAll_filter_not_eq)
      obtain d2 lg2 where r: "delete_loop keep es d1 = (d2, lg2)" by (cases "delete_loop keep es d1")
      from "2.IH"(2) [OF nk Inr r]
      have ih: "names d2 = filter (\<lambda>f. f \<notin> set (delete_list keep es) \<or> f \<in> protected d1) (names d1)"
        "protected d2 = protected d1" by simp_all
      have d': "d' = d2" using "2.prems" nk Inr r by simp
      have "names d' = filter (\<lambda>x. f \<noteq> x \<and> (x \<notin> set (delete_list keep es) \<or> x \<in> protected d)) (names d)"
        unfolding d' ih(1) n1 p1 by simp
      also have "\<dots> = filter (\<lambda>x. x \<notin> set (delete_list keep ((f, ts) # es)) \<or> x \<in> protected d) (names d)"
        by (rule filter_cong [OF refl]) (use u nk in \<open>auto simp: delete_list_Cons\<close>)
      finally have "names d' = filter (\<lambda>x. x \<notin> set (delete_list keep ((f, ts) # es)) \<or> x \<in> protected d) (names d)" .
      moreover have "protected d' = protected d" unfolding d' ih(2) p1 ..
      ultimately show ?thesis ..
    next
      case (Inl e)
      then have u: "f \<notin> set (names d) \<or> f \<in> protected d" by (auto simp: unlink_Inl)
      obtain d2 lg2 where r: "delete_loop keep es d = (d2, lg2)" by (cases "delete_loop keep es d")
      from "2.IH"(1) [OF nk Inl r]
      have ih: "names d2 = filter (\<lambda>f. f \<notin> set (delete_list keep es) \<or> f \<in> protected d) (names d)"
        "protected d2 = protected d" by simp_all
      have d': "d' = d2" using "2.prems" nk Inl r by simp
      have "filter (\<lambda>x. x \<notin> set (delete_list keep es) \<or> x \<in> protected d) (names d)
          = filter (\<lambda>x. x \<notin> set (delete_list keep ((f, ts) # es)) \<or> x \<in> protected d) (names d)"
        by (rule filter_cong [OF refl]) (use u nk in \<open>auto simp: delete_list_Cons\<close>)
      then have "names d' = filter (\<lambda>x. x \<notin> set (delete_list keep ((f, ts) # es)) \<or> x \<in> protected d) (names d)"
        unfolding d' ih(1) .
      moreover have "protected d' = protected d" unfolding d' ih(2) ..
      ultimately show ?thesis ..
    qed
  qed
qed

lemma delete_loop_log_Deleting:
  "delete_loop keep es d = (d', lg) \<Longrightarrow>
     Deleting f \<in> set lg \<longleftrightarrow> f \<in> set (delete_list keep es)"
proof (induction keep es d arbitrary: d' lg rule: delete_loop.induct)
  case (1 keep d)
  then show ?case by (simp add: delete_list_def)
next
  case (2 keep g ts es d)
  show ?case
  proof (cases "g \<in> keep")
    case True
    then show ?thesis using 2 by (simp add: delete_list_def)
  next
    case nk: False
    show ?thesis
    proof (cases "unlink d g")
      case (Inr d1)
      obtain d2 lg2 where r: "delete_loop keep es d1 = (d2, lg2)" by (cases "delete_loop keep es d1")
      from "2.IH"(2) [OF nk Inr r] have "Deleting f \<in> set lg2 \<longleftrightarrow> f \<in> set (delete_list keep es)" .
      moreover have "lg = Deleting g # lg2" using "2.prems" nk Inr r by simp
      ultimately show ?thesis using nk by (auto simp: delete_list_def)
    next
      case (Inl e)
      obtain d2 lg2 where r: "delete_loop keep es d = (d2, lg2)" by (cases "delete_loop keep es d")
      from "2.IH"(1) [OF nk Inl r] have "Deleting f \<in> set lg2 \<longleftrightarrow> f \<in> set (delete_list keep es)" .
      moreover have "lg = Deleting g # Cannot_delete g e # lg2" using "2.prems" nk Inl r by simp
      ultimately show ?thesis using nk by (auto simp: delete_list_def)
    qed
  qed
qed

lemma delete_loop_log_protected:
  "delete_loop keep es d = (d', lg) \<Longrightarrow> f \<in> set (delete_list keep es) \<Longrightarrow>
     f \<in> protected d \<Longrightarrow> f \<in> set (names d) \<Longrightarrow> Cannot_delete f PermissionError \<in> set lg"
proof (induction keep es d arbitrary: d' lg rule: delete_loop.induct)
  case (1 keep d)
  then show ?case by (simp add: delete_list_def)
next
  case (2 keep g ts es d)
  show ?case
  proof (cases "g \<in> keep")
    case True
    then show ?thesis using 2 by (simp add: delete_list_def)
  next
    case nk: False
    show ?thesis
    proof (cases "unlink d g")
      case (Inr d1)
      then have u: "g \<notin> protected d" "d1 = d\<lparr>names := removeAll g (names d)\<rparr>"
        by (simp_all add: unlink_Inr)
      obtain d2 lg2 where r: "delete_loop keep es d1 = (d2, lg2)" by (cases "delete_loop keep es d1")
      have fg: "f \<noteq> g" using u "2.prems"(3) by auto
      then have "f \<in> set (delete_list keep es)" using "2.prems"(2) nk by (auto simp: delete_list_def)
      moreover have "f \<in> protected d1" "f \<in> set (names d1)" using u fg "2.prems"(3,4) by simp_all
      ultimately have "Cannot_delete f PermissionError \<in> set lg2"
        using "2.IH"(2) [OF nk Inr r] by simp
      moreover have "lg = Deleting g # lg2" using "2.prems"(1) nk Inr r by simp
      ultimately show ?thesis by simp
    next
      case (Inl e)
      obtain d2 lg2 where r: "delete_loop keep es d = (d2, lg2)" by (cases "delete_loop keep es d")
      have lg: "lg = Deleting g # Cannot_delete g e # lg2" using "2.prems"(1) nk Inl r by simp
      show ?thesis
      proof (cases "f = g")
        case True
        then have "e = PermissionError" using Inl "2.prems"(3,4) by (auto simp: unlink_Inl)
        then show ?thesis using lg True by simp
      next
        case False
        then have "f \<in> set (delete_list keep es)" using "2.prems"(2) nk by (auto simp: delete_list_def)
        then have "Cannot_delete f PermissionError \<in> set lg2"
          using "2.IH"(1) [OF nk Inl r] "2.prems"(3,4) by simp
        then show ?thesis using lg by simp
      qed
    qed
  qed
qed

lemma delete_list_iff:
  "f \<in> set (delete_list keep es) \<longleftrightarrow> f \<in> fst ` set es \<and> f \<notin> keep"
  by (force simp: delete_list_def)

subsection \<open>The whole run\<close>

lemma rotate_backups_unfold:
  "rotate_backups d db now =
     (if run_entries (names d) db = [] then Inr (d, skip_log (sort (glob (names d) db)))
      else (case cutoffs now of
              Inl e \<Rightarrow> Inl e
            | Inr (dc, wc, mc) \<Rightarrow>
                (case delete_loop (keep_set dc wc mc (run_entries (names d) db))
                        (run_entries (names d) db) d of
                   (d', lg) \<Rightarrow> Inr (d', skip_log (sort (glob (names d) db)) @ lg))))"
  by (auto simp: rotate_backups_def run_entries_def Let_def split: sum.splits prod.splits)

lemma skip_log_no_Deleting: "Deleting f \<notin> set (skip_log fs)"
  by (induction fs) (auto split: option.splits)

lemma skip_log_no_Cannot: "Cannot_delete f e \<notin> set (skip_log fs)"
  by (induction fs) (auto split: option.splits)

lemma rotate_backups_cases:
  assumes "rotate_backups d db now = Inr (d', lg)"
  obtains (early) "run_entries (names d) db = []" "d' = d"
      "lg = skip_log (sort (glob (names d) db))"
    | (run) dc wc mc lg' where "run_entries (names d) db \<noteq> []"
      "cutoffs now = Inr (dc, wc, mc)"
      "delete_loop (keep_set dc wc mc (run_entries (names d) db))
         (run_entries (names d) db) d = (d', lg')"
      "lg = skip_log (sort (glob (names d) db)) @ lg'"
  using assms unfolding rotate_backups_unfold
  by (auto split: if_splits sum.splits prod.splits)

lemma rotate_backups_effect:
  assumes r: "rotate_backups d db now = Inr (d', lg)"
    and c: "cutoffs now = Inr (dc, wc, mc)"
  shows "names d' =
           filter (\<lambda>f. f \<notin> set (delete_list (keep_set dc wc mc (run_entries (names d) db))
                                  (run_entries (names d) db)) \<or> f \<in> protected d) (names d)"
    and "protected d' = protected d"
    and "Deleting f \<in> set lg \<longleftrightarrow>
           f \<in> set (delete_list (keep_set dc wc mc (run_entries (names d) db))
                     (run_entries (names d) db))"
proof -
  let ?E = "run_entries (names d) db"
  let ?K = "keep_set dc wc mc ?E"
  from r have "names d' = filter (\<lambda>f. f \<notin> set (delete_list ?K ?E) \<or> f \<in> protected d) (names d)
    \<and> protected d' = protected d \<and> (Deleting f \<in> set lg \<longleftrightarrow> f \<in> set (delete_list ?K ?E))"
  proof (cases rule: rotate_backups_cases)
    case early
    then show ?thesis by (simp add: delete_list_def skip_log_no_Deleting)
  next
    case (run dc' wc' mc' lg')
    then have eq: "dc' = dc" "wc' = wc" "mc' = mc" using c by simp_all
    from run(3) have dl: "delete_loop ?K ?E d = (d', lg')" unfolding eq .
    show ?thesis
      using delete_loop_names [OF dl] delete_loop_log_Deleting [OF dl, of f] run(4)
      by (simp add: skip_log_no_Deleting)
  qed
  then show "names d' =
           filter (\<lambda>f. f \<notin> set (delete_list ?K ?E) \<or> f \<in> protected d) (names d)"
    and "protected d' = protected d"
    and "Deleting f \<in> set lg \<longleftrightarrow> f \<in> set (delete_list ?K ?E)" by blast+
qed

subsection \<open>Tiers, buckets and the keep-set\<close>

lemma cutoffs_daily:
  "cutoffs now = Inr (dc, wc, mc) \<Longrightarrow> dt_sub_days now 7 = Inr dc"
  by (auto simp: cutoffs_def split: sum.splits)

lemma run_entries_names: "(f, ts) \<in> set (run_entries listing db) \<Longrightarrow> f \<in> set listing"
  by (simp add: set_run_entries)

lemma tier_exclusion:
  assumes "cutoffs now = Inr (dc, wc, mc)"
  shows "\<not> (in_daily dc ts \<and> in_weekly dc wc ts)"
    and "\<not> (in_daily dc ts \<and> in_monthly wc mc ts)"
    and "\<not> (in_weekly dc wc ts \<and> in_monthly wc mc ts)"
    and "dt_less ts mc \<Longrightarrow> \<not> in_daily dc ts \<and> \<not> in_weekly dc wc ts \<and> \<not> in_monthly wc mc ts"
proof -
  note o = cutoffs_ordered [OF assms]
  show "\<not> (in_daily dc ts \<and> in_weekly dc wc ts)"
    by (auto simp: in_daily_def in_weekly_def dt_less_iff)
  show "\<not> (in_weekly dc wc ts \<and> in_monthly wc mc ts)"
    by (auto simp: in_weekly_def in_monthly_def dt_less_iff)
  show "\<not> (in_daily dc ts \<and> in_monthly wc mc ts)"
    using o(2) by (auto simp: in_daily_def in_monthly_def dt_less_iff dest: dt_le_trans)
  show "dt_less ts mc \<Longrightarrow> \<not> in_daily dc ts \<and> \<not> in_weekly dc wc ts \<and> \<not> in_monthly wc mc ts"
    using o by (auto simp: in_daily_def in_weekly_def in_monthly_def dt_less_iff dest: dt_le_trans)
qed

text \<open>An entry in the keep-set that lies in a bucketed tier is its bucket's entry.\<close>

lemma kept_weekly_is_rep:
  assumes E: "E = run_entries listing db"
    and f: "(f, ts) \<in> set E" "in_weekly dc wc ts" "f \<in> keep_set dc wc mc E"
  shows "first_latest None (bucket (in_weekly dc wc) iso_key (iso_key ts) E) = Some (f, ts)"
proof -
  from f(3) consider
      (d) t where "(f, t) \<in> set E" "in_daily dc t"
    | (w) k t where "first_latest None (bucket (in_weekly dc wc) iso_key k E) = Some (f, t)"
    | (m) k t where "first_latest None (bucket (in_monthly wc mc) month_key k E) = Some (f, t)"
    unfolding keep_set_iff by blast
  then show ?thesis
  proof cases
    case d
    then have "t = ts" using f(1) run_entries_fun unfolding E by blast
    then show ?thesis using d f(2) by (auto simp: in_daily_def in_weekly_def dt_less_iff)
  next
    case w
    from bucket_rep_props(1,3) [OF w] have "(f, t) \<in> set E" "iso_key t = k" by simp_all
    moreover then have "t = ts" using f(1) run_entries_fun unfolding E by blast
    ultimately show ?thesis using w by simp
  next
    case m
    from bucket_rep_props(1,2) [OF m] have "(f, t) \<in> set E" "in_monthly wc mc t" by simp_all
    moreover then have "t = ts" using f(1) run_entries_fun unfolding E by blast
    ultimately show ?thesis using f(2) by (auto simp: in_weekly_def in_monthly_def dt_less_iff)
  qed
qed

lemma kept_monthly_is_rep:
  assumes c: "cutoffs now = Inr (dc, wc, mc)"
    and E: "E = run_entries listing db"
    and f: "(f, ts) \<in> set E" "in_monthly wc mc ts" "f \<in> keep_set dc wc mc E"
  shows "first_latest None (bucket (in_monthly wc mc) month_key (month_key ts) E) = Some (f, ts)"
proof -
  from f(3) consider
      (d) t where "(f, t) \<in> set E" "in_daily dc t"
    | (w) k t where "first_latest None (bucket (in_weekly dc wc) iso_key k E) = Some (f, t)"
    | (m) k t where "first_latest None (bucket (in_monthly wc mc) month_key k E) = Some (f, t)"
    unfolding keep_set_iff by blast
  then show ?thesis
  proof cases
    case d
    then have "t = ts" using f(1) run_entries_fun unfolding E by blast
    then show ?thesis using d f(2) tier_exclusion(2) [OF c, of ts] by simp
  next
    case w
    from bucket_rep_props(1,2) [OF w] have "(f, t) \<in> set E" "in_weekly dc wc t" by simp_all
    moreover then have "t = ts" using f(1) run_entries_fun unfolding E by blast
    ultimately show ?thesis using f(2) tier_exclusion(3) [OF c, of ts] by simp
  next
    case m
    from bucket_rep_props(1,3) [OF m] have "(f, t) \<in> set E" "month_key t = k" by simp_all
    moreover then have "t = ts" using f(1) run_entries_fun unfolding E by blast
    ultimately show ?thesis using m by simp
  qed
qed

lemma keep_set_weekly_rep:
  "first_latest None (bucket (in_weekly dc wc) iso_key k E) = Some (f, ts)
     \<Longrightarrow> f \<in> keep_set dc wc mc E"
  unfolding keep_set_iff by blast

lemma keep_set_monthly_rep:
  "first_latest None (bucket (in_monthly wc mc) month_key k E) = Some (f, ts)
     \<Longrightarrow> f \<in> keep_set dc wc mc E"
  unfolding keep_set_iff by blast

lemma bucket_survivor_by_key:
  assumes c: "cutoffs now = Inr (dc, wc, mc)"
    and E: "E = run_entries listing db"
    and K: "K = keep_set dc wc mc E"
    and f: "(f, ts) \<in> set E"
  shows "(in_weekly dc wc ts \<longrightarrow>
           (\<exists>g t. (g, t) \<in> set E \<and> in_weekly dc wc t \<and> iso_key t = iso_key ts \<and> g \<in> K \<and>
              (\<forall>(h, u)\<in>set E. in_weekly dc wc u \<and> iso_key u = iso_key ts \<longrightarrow>
                 dt_le u t \<and> (h \<in> K \<longrightarrow> h = g)))) \<and>
         (in_monthly wc mc ts \<longrightarrow>
           (\<exists>g t. (g, t) \<in> set E \<and> in_monthly wc mc t \<and> month_key t = month_key ts \<and> g \<in> K \<and>
              (\<forall>(h, u)\<in>set E. in_monthly wc mc u \<and> month_key u = month_key ts \<longrightarrow>
                 dt_le u t \<and> (h \<in> K \<longrightarrow> h = g))))"
proof (intro conjI impI)
  assume w: "in_weekly dc wc ts"
  from bucket_occupied [of f ts E "in_weekly dc wc" iso_key, OF f w] obtain g t where
    r: "first_latest None (bucket (in_weekly dc wc) iso_key (iso_key ts) E) = Some (g, t)" by blast
  note p = bucket_rep_props [OF r]
  have "h = g" if "(h, u) \<in> set E" "in_weekly dc wc u" "iso_key u = iso_key ts" "h \<in> K" for h u
    using kept_weekly_is_rep [OF E that(1,2)] that(3,4) r unfolding K by simp
  then have "\<forall>(h, u)\<in>set E. in_weekly dc wc u \<and> iso_key u = iso_key ts \<longrightarrow>
      dt_le u t \<and> (h \<in> K \<longrightarrow> h = g)"
    using p(4) by blast
  moreover have "g \<in> K" unfolding K using r by (rule keep_set_weekly_rep)
  ultimately show "\<exists>g t. (g, t) \<in> set E \<and> in_weekly dc wc t \<and> iso_key t = iso_key ts \<and> g \<in> K \<and>
      (\<forall>(h, u)\<in>set E. in_weekly dc wc u \<and> iso_key u = iso_key ts \<longrightarrow>
         dt_le u t \<and> (h \<in> K \<longrightarrow> h = g))"
    using p(1,2,3) by blast
next
  assume m: "in_monthly wc mc ts"
  from bucket_occupied [of f ts E "in_monthly wc mc" month_key, OF f m] obtain g t where
    r: "first_latest None (bucket (in_monthly wc mc) month_key (month_key ts) E) = Some (g, t)"
    by blast
  note p = bucket_rep_props [OF r]
  have "h = g" if "(h, u) \<in> set E" "in_monthly wc mc u" "month_key u = month_key ts" "h \<in> K" for h u
    using kept_monthly_is_rep [OF c E that(1,2)] that(3,4) r unfolding K by simp
  then have "\<forall>(h, u)\<in>set E. in_monthly wc mc u \<and> month_key u = month_key ts \<longrightarrow>
      dt_le u t \<and> (h \<in> K \<longrightarrow> h = g)"
    using p(4) by blast
  moreover have "g \<in> K" unfolding K using r by (rule keep_set_monthly_rep)
  ultimately show "\<exists>g t. (g, t) \<in> set E \<and> in_monthly wc mc t \<and> month_key t = month_key ts \<and> g \<in> K \<and>
      (\<forall>(h, u)\<in>set E. in_monthly wc mc u \<and> month_key u = month_key ts \<longrightarrow>
         dt_le u t \<and> (h \<in> K \<longrightarrow> h = g))"
    using p(1,2,3) by blast
qed

lemma iso_key_eq:
  "iso_key a = iso_key b \<longleftrightarrow>
     fst (isocalendar a) = fst (isocalendar b) \<and>
     fst (snd (isocalendar a)) = fst (snd (isocalendar b))"
  by (simp add: iso_key_def split: prod.splits)

lemma month_key_eq:
  "month_key a = month_key b \<longleftrightarrow> year a = year b \<and> month a = month b"
  by (simp add: month_key_def)

text \<open>
  Claim C1. In a run whose cutoffs are \<open>dc\<close>, \<open>wc\<close> and \<open>mc\<close>, take any parsed entry
  in the weekly range and the entries of that range with the same ISO week-numbering
  year and the same ISO week number (the first two components of \<^verbatim>\<open>isocalendar\<close>), or
  any parsed entry in the monthly range and the entries of that range with the same
  calendar year and month. One entry \<open>g\<close> of that bucket is in the keep-set, its
  timestamp is the greatest of the bucket, and no other entry of the bucket is in the
  keep-set.
\<close>

theorem bucket_one_survivor:
  assumes c: "cutoffs now = Inr (dc, wc, mc)"
    and E: "E = run_entries listing db"
    and K: "K = keep_set dc wc mc E"
    and f: "(f, ts) \<in> set E"
  shows "(in_weekly dc wc ts \<longrightarrow>
           (\<exists>g t. (g, t) \<in> set E \<and> in_weekly dc wc t \<and>
              fst (isocalendar t) = fst (isocalendar ts) \<and>
              fst (snd (isocalendar t)) = fst (snd (isocalendar ts)) \<and> g \<in> K \<and>
              (\<forall>(h, u)\<in>set E.
                 in_weekly dc wc u \<and> fst (isocalendar u) = fst (isocalendar ts) \<and>
                 fst (snd (isocalendar u)) = fst (snd (isocalendar ts)) \<longrightarrow>
                 dt_le u t \<and> (h \<in> K \<longrightarrow> h = g)))) \<and>
         (in_monthly wc mc ts \<longrightarrow>
           (\<exists>g t. (g, t) \<in> set E \<and> in_monthly wc mc t \<and>
              year t = year ts \<and> month t = month ts \<and> g \<in> K \<and>
              (\<forall>(h, u)\<in>set E.
                 in_monthly wc mc u \<and> year u = year ts \<and> month u = month ts \<longrightarrow>
                 dt_le u t \<and> (h \<in> K \<longrightarrow> h = g))))"
  using bucket_survivor_by_key [OF c E K f]
  unfolding iso_key_eq month_key_eq conj_assoc .

text \<open>
  Claim C2. A parsed entry whose timestamp is not before \<^verbatim>\<open>now - 7 days\<close> is in the
  keep-set, stays in the directory and is never logged as deleted. The timestamp may
  equal the cutoff and may lie after \<open>now\<close>.
\<close>

theorem recent_entries_kept:
  assumes f: "(f, ts) \<in> set (run_entries (names d) db)"
    and dc: "dt_sub_days now 7 = Inr daily_cutoff"
    and ts: "dt_le daily_cutoff ts"
    and r: "rotate_backups d db now = Inr (d', lg)"
  shows "f \<in> keep_set daily_cutoff wc mc (run_entries (names d) db) \<and>
         f \<in> set (names d') \<and> Deleting f \<notin> set lg"
proof -
  let ?E = "run_entries (names d) db"
  have k: "f \<in> keep_set daily_cutoff wc' mc' ?E" for wc' mc'
    unfolding keep_set_iff using f ts by (auto simp: in_daily_def)
  from r show ?thesis
  proof (cases rule: rotate_backups_cases)
    case early
    then show ?thesis using f by simp
  next
    case (run dc' wc' mc' lg')
    then have c: "cutoffs now = Inr (daily_cutoff, wc', mc')"
      using cutoffs_daily [OF run(2)] dc by simp
    have "f \<notin> set (delete_list (keep_set daily_cutoff wc' mc' ?E) ?E)"
      using k [of wc' mc'] by (simp add: delete_list_iff)
    then show ?thesis
      using rotate_backups_effect [OF r c] k [of wc mc] run_entries_names [OF f] by simp
  qed
qed

text \<open>
  Claim C3. No timestamp lies in two of the ranges daily, weekly and monthly, and a
  parsed entry older than \<^verbatim>\<open>now - 90 days\<close> lies in none of them, is not in the keep-set
  and is in the delete-set.
\<close>

theorem tiers_disjoint:
  assumes c: "cutoffs now = Inr (dc, wc, mc)"
    and E: "E = run_entries listing db"
  shows "\<not> (in_daily dc ts \<and> in_weekly dc wc ts) \<and>
         \<not> (in_daily dc ts \<and> in_monthly wc mc ts) \<and>
         \<not> (in_weekly dc wc ts \<and> in_monthly wc mc ts) \<and>
         ((f, ts) \<in> set E \<and> dt_less ts mc \<longrightarrow>
            \<not> in_daily dc ts \<and> \<not> in_weekly dc wc ts \<and> \<not> in_monthly wc mc ts \<and>
            f \<notin> keep_set dc wc mc E \<and> f \<in> set (delete_list (keep_set dc wc mc E) E))"
proof -
  have "f \<notin> keep_set dc wc mc E \<and> f \<in> set (delete_list (keep_set dc wc mc E) E)"
    if f: "(f, ts) \<in> set E" and old: "dt_less ts mc"
  proof -
    note n = tier_exclusion(4) [OF c old]
    have "f \<notin> keep_set dc wc mc E"
    proof
      assume "f \<in> keep_set dc wc mc E"
      then consider
          (d) t where "(f, t) \<in> set E" "in_daily dc t"
        | (w) k t where "first_latest None (bucket (in_weekly dc wc) iso_key k E) = Some (f, t)"
        | (m) k t where "first_latest None (bucket (in_monthly wc mc) month_key k E) = Some (f, t)"
        unfolding keep_set_iff by blast
      then show False
      proof cases
        case d
        then have "t = ts" using f run_entries_fun unfolding E by blast
        then show False using d n by simp
      next
        case w
        from bucket_rep_props(1,2) [OF w] have "(f, t) \<in> set E" "in_weekly dc wc t" by simp_all
        moreover then have "t = ts" using f run_entries_fun unfolding E by blast
        ultimately show False using n by simp
      next
        case m
        from bucket_rep_props(1,2) [OF m] have "(f, t) \<in> set E" "in_monthly wc mc t" by simp_all
        moreover then have "t = ts" using f run_entries_fun unfolding E by blast
        ultimately show False using n by simp
      qed
    qed
    then show ?thesis using f by (force simp: delete_list_iff)
  qed
  then show ?thesis using tier_exclusion [OF c, of ts] by blast
qed

text \<open>
  Claim C4. A file whose name does not parse (the decoder returns \<open>None\<close>) is not in
  the keep-set nor in the delete-set of a run, is not logged as deleted, and is in the
  directory after the run exactly when it was there before.
\<close>

theorem unparsable_untouched:
  assumes p: "parse_backup_timestamp f = None"
    and r: "rotate_backups d db now = Inr (d', lg)"
  shows "f \<notin> keep_set dc wc mc (run_entries (names d) db) \<and>
         f \<notin> set (delete_list K (run_entries (names d) db)) \<and>
         Deleting f \<notin> set lg \<and>
         (f \<in> set (names d') \<longleftrightarrow> f \<in> set (names d))"
proof -
  let ?E = "run_entries (names d) db"
  have nE: "f \<notin> fst ` set ?E" using p by (auto simp: set_run_entries)
  then have a: "f \<notin> keep_set dc' wc' mc' ?E" for dc' wc' mc'
    using keep_set_subset by blast
  have b: "f \<notin> set (delete_list K' ?E)" for K'
    using nE by (simp add: delete_list_iff)
  from r have "Deleting f \<notin> set lg \<and> (f \<in> set (names d') \<longleftrightarrow> f \<in> set (names d))"
  proof (cases rule: rotate_backups_cases)
    case early
    then show ?thesis by (simp add: skip_log_no_Deleting)
  next
    case (run dc' wc' mc' lg')
    show ?thesis using rotate_backups_effect [OF r run(2)] b by simp
  qed
  then show ?thesis using a b by simp
qed




lemma bucket_filter: "bucket rng key k (filter P es) = filter P (bucket rng key k es)"
  by (auto simp: bucket_def intro: filter_cong)

lemma first_latest_filter_kept:
  assumes P: "\<And>e. first_latest None xs = Some e \<Longrightarrow> P e"
  shows "first_latest None (filter P xs) = first_latest None xs"
proof (cases "first_latest None xs")
  case None
  then have "xs = []" by (simp add: first_latest_empty_iff)
  then show ?thesis by simp
next
  case (Some e)
  then show ?thesis using first_latest_filter [of xs e P, OF Some P [OF Some]] by simp
qed

lemma keep_set_filter:
  assumes P: "\<And>f ts. (f, ts) \<in> set es \<Longrightarrow> f \<in> keep_set dc wc mc es \<Longrightarrow> P (f, ts)"
  shows "keep_set dc wc mc (filter P es) = keep_set dc wc mc es"
proof -
  have w: "first_latest None (bucket (in_weekly dc wc) iso_key k (filter P es))
         = first_latest None (bucket (in_weekly dc wc) iso_key k es)" for k
    unfolding bucket_filter
  proof (rule first_latest_filter_kept)
    fix e assume r: "first_latest None (bucket (in_weekly dc wc) iso_key k es) = Some e"
    obtain f ts where e: "e = (f, ts)" by (cases e)
    show "P e" unfolding e
      using bucket_rep_props(1) [OF r [unfolded e]] keep_set_weekly_rep [OF r [unfolded e]]
      by (rule P)
  qed
  have m: "first_latest None (bucket (in_monthly wc mc) month_key k (filter P es))
         = first_latest None (bucket (in_monthly wc mc) month_key k es)" for k
    unfolding bucket_filter
  proof (rule first_latest_filter_kept)
    fix e assume r: "first_latest None (bucket (in_monthly wc mc) month_key k es) = Some e"
    obtain f ts where e: "e = (f, ts)" by (cases e)
    show "P e" unfolding e
      using bucket_rep_props(1) [OF r [unfolded e]] keep_set_monthly_rep [OF r [unfolded e]]
      by (rule P)
  qed
  have d: "(\<exists>ts. (f, ts) \<in> set (filter P es) \<and> in_daily dc ts)
         \<longleftrightarrow> (\<exists>ts. (f, ts) \<in> set es \<and> in_daily dc ts)" for f
  proof
    assume "\<exists>ts. (f, ts) \<in> set es \<and> in_daily dc ts"
    then obtain ts where t: "(f, ts) \<in> set es" "in_daily dc ts" by blast
    then have "f \<in> keep_set dc wc mc es" unfolding keep_set_iff by blast
    from P [OF t(1) this] t show "\<exists>ts. (f, ts) \<in> set (filter P es) \<and> in_daily dc ts" by auto
  qed auto
  show ?thesis
    by (rule set_eqI) (simp only: keep_set_iff w m d)
qed

lemma rotate_backups_total:
  assumes "cutoffs now = Inr (dc, wc, mc)"
  shows "\<exists>d' lg. rotate_backups d db now = Inr (d', lg)"
  unfolding rotate_backups_unfold using assms by (auto split: prod.splits)

lemma planned_deletions_Inr:
  assumes "cutoffs now = Inr (dc, wc, mc)"
  shows "planned_deletions listing db now =
     Inr (delete_list (keep_set dc wc mc (run_entries listing db)) (run_entries listing db))"
  using assms by (simp add: planned_deletions_def Let_def delete_list_Nil)

lemma planned_keep_Inr:
  assumes "cutoffs now = Inr (dc, wc, mc)"
  shows "planned_keep listing db now = Inr (keep_set dc wc mc (run_entries listing db))"
proof -
  have "keep_set dc wc mc [] = {}"
    by (simp add: keep_set_def daily_keep_def weekly_dict_def monthly_dict_def)
  then show ?thesis using assms by (simp add: planned_keep_def Let_def)
qed

text \<open>
  Claim C7, as the code has it. After a run, the delete-set of a second run on the
  resulting directory at the same instant is the part of the first delete-set whose
  removal failed; it is empty when every removal succeeded.
\<close>

theorem second_run_retries_failed_removals:
  assumes r: "rotate_backups d db now = Inr (d', lg)"
  shows "\<exists>dl. planned_deletions (names d) db now = Inr dl \<and>
           planned_deletions (names d') db now = Inr (filter (\<lambda>f. f \<in> protected d) dl)"
  using r
proof (cases rule: rotate_backups_cases)
  case early
  then show ?thesis by (simp add: planned_deletions_def)
next
  case (run dc wc mc lg')
  let ?E = "run_entries (names d) db"
  let ?K = "keep_set dc wc mc ?E"
  let ?Q = "\<lambda>f. f \<notin> set (delete_list ?K ?E) \<or> f \<in> protected d"
  let ?Qe = "\<lambda>(f, ts). ?Q f"
  note c = run(2)
  have n: "names d' = filter ?Q (names d)" by (rule rotate_backups_effect(1) [OF r c])
  have E': "run_entries (names d') db = filter ?Qe ?E"
    unfolding n by (rule run_entries_filter)
  have K': "keep_set dc wc mc (filter ?Qe ?E) = ?K"
    by (rule keep_set_filter) (simp add: delete_list_iff)
  have "delete_list ?K (filter ?Qe ?E) = filter (\<lambda>f. f \<in> protected d) (delete_list ?K ?E)"
  proof -
    have "filter (\<lambda>(f, ts). f \<notin> ?K) (filter ?Qe ?E)
        = filter (\<lambda>(f, ts). f \<in> protected d) (filter (\<lambda>(f, ts). f \<notin> ?K) ?E)"
      unfolding filter_filter
      by (rule filter_cong [OF refl]) (force simp: delete_list_iff)
    then have "map fst (filter (\<lambda>(f, ts). f \<notin> ?K) (filter ?Qe ?E))
        = map fst (filter ((\<lambda>f. f \<in> protected d) \<circ> fst) (filter (\<lambda>(f, ts). f \<notin> ?K) ?E))"
      by (simp add: comp_def case_prod_unfold)
    then show ?thesis unfolding delete_list_def filter_map by simp
  qed
  then have "planned_deletions (names d') db now
      = Inr (filter (\<lambda>f. f \<in> protected d) (delete_list ?K ?E))"
    unfolding planned_deletions_Inr [OF c] E' K' by simp
  then show ?thesis unfolding planned_deletions_Inr [OF c, of "names d"] by simp
qed

text \<open>
  Claim C8. Two directories with the same files, enumerated in any two orders, give a
  run the same entries, hence the same keep-set and the same delete-set at the same
  instant; when the same files resist removal, the two runs leave the same files.
\<close>

theorem rotation_order_independent:
  assumes s: "set (names d1) = set (names d2)"
    and d: "distinct (names d1)" "distinct (names d2)"
  shows "run_entries (names d1) db = run_entries (names d2) db \<and>
         planned_keep (names d1) db now = planned_keep (names d2) db now \<and>
         planned_deletions (names d1) db now = planned_deletions (names d2) db now \<and>
         (protected d1 = protected d2 \<and> rotate_backups d1 db now = Inr (d1', lg1) \<longrightarrow>
            (\<exists>d2' lg2. rotate_backups d2 db now = Inr (d2', lg2) \<and>
               set (names d2') = set (names d1')))"
proof -
  have E: "run_entries (names d1) db = run_entries (names d2) db"
    using s d by (rule run_entries_perm)
  have pk: "planned_keep (names d1) db now = planned_keep (names d2) db now"
    and pd: "planned_deletions (names d1) db now = planned_deletions (names d2) db now"
    by (simp_all add: planned_keep_def planned_deletions_def E)
  have "\<exists>d2' lg2. rotate_backups d2 db now = Inr (d2', lg2) \<and>
            set (names d2') = set (names d1')"
    if p: "protected d1 = protected d2" and r: "rotate_backups d1 db now = Inr (d1', lg1)"
    using r
  proof (cases rule: rotate_backups_cases)
    case early
    then have "rotate_backups d2 db now = Inr (d2, skip_log (sort (glob (names d2) db)))"
      unfolding rotate_backups_unfold [of d2] E by simp
    then show ?thesis using early s by simp
  next
    case (run dc wc mc lg')
    from rotate_backups_total [OF run(2)] obtain d2' lg2 where
      r2: "rotate_backups d2 db now = Inr (d2', lg2)" by blast
    have "set (names d2') = set (names d1')"
      unfolding rotate_backups_effect(1) [OF r run(2)] rotate_backups_effect(1) [OF r2 run(2)]
      using s p E by auto
    then show ?thesis using r2 by blast
  qed
  then show ?thesis using E pk pd by blast
qed

text \<open>
  Claim C9. When the cutoffs of the instant exist, the run returns whatever removal
  fails: every entry of the delete-set is attempted and logged, an entry that cannot be
  removed stays and its failure is logged, and every other entry of the delete-set is
  gone from the directory.
\<close>

theorem removal_failures_isolated:
  assumes c: "cutoffs now = Inr (dc, wc, mc)"
    and E: "E = run_entries (names d) db"
    and K: "K = keep_set dc wc mc E"
  shows "\<exists>d' lg. rotate_backups d db now = Inr (d', lg) \<and>
           (\<forall>f\<in>set (delete_list K E).
              Deleting f \<in> set lg \<and>
              (if f \<in> protected d
               then f \<in> set (names d') \<and> Cannot_delete f PermissionError \<in> set lg
               else f \<notin> set (names d')))"
proof -
  from rotate_backups_total [OF c] obtain d' lg where
    r: "rotate_backups d db now = Inr (d', lg)" by blast
  note eff = rotate_backups_effect [OF r c, folded E, folded K]
  have "Deleting f \<in> set lg \<and>
        (if f \<in> protected d
         then f \<in> set (names d') \<and> Cannot_delete f PermissionError \<in> set lg
         else f \<notin> set (names d'))" if f: "f \<in> set (delete_list K E)" for f
  proof -
    have fn: "f \<in> set (names d)"
      using f unfolding E by (auto simp: delete_list_iff dest: run_entries_names)
    have "Cannot_delete f PermissionError \<in> set lg" if pr: "f \<in> protected d"
      using r
    proof (cases rule: rotate_backups_cases)
      case early
      then show ?thesis using f unfolding E by (simp add: delete_list_Nil)
    next
      case (run dc' wc' mc' lg')
      then have eq: "dc' = dc" "wc' = wc" "mc' = mc" using c by simp_all
      from run(3) have dl: "delete_loop K E d = (d', lg')" unfolding eq E K .
      from delete_loop_log_protected [OF dl f pr fn] show ?thesis using run(4) by simp
    qed
    then show ?thesis using eff(1) eff(3) [of f] f fn by simp
  qed
  then show ?thesis using r by blast
qed

subsection \<open>The timestamp codec\<close>

declare str_nat.simps [simp del]

lemma digit_cases:
  fixes k :: nat
  assumes "k < 10"
  shows "k \<in> {9, 8, 7, 6, 5, 4, 3, 2, 1, 0}"
  using assms by simp arith

lemma of_char_digit: "n < 10 \<Longrightarrow> of_char (digit_char n) = (48 + n :: nat)"
  by (drule digit_cases) (auto simp: digit_char_def)

lemma is_digit_digit_char: "n < 10 \<Longrightarrow> is_digit (digit_char n)"
  by (drule digit_cases) (auto simp: digit_char_def is_digit_def)

lemma digit_char_le: "a < 10 \<Longrightarrow> b < 10 \<Longrightarrow> digit_char a \<le> digit_char b \<longleftrightarrow> a \<le> b"
  by (simp add: less_eq_char_def of_char_digit)

lemma digit_char_eq: "a < 10 \<Longrightarrow> b < 10 \<Longrightarrow> digit_char a = digit_char b \<longleftrightarrow> a = b"
proof
  assume "a < 10" "b < 10" "digit_char a = digit_char b"
  then have "(of_char (digit_char a) :: nat) = of_char (digit_char b)" by simp
  then show "a = b" using \<open>a < 10\<close> \<open>b < 10\<close> by (simp add: of_char_digit)
qed simp

lemma between_digit:
  "a < 10 \<Longrightarrow> b < 10 \<Longrightarrow> n < 10 \<Longrightarrow>
     between (digit_char a) (digit_char b) (digit_char n) \<longleftrightarrow> a \<le> n \<and> n \<le> b"
  by (simp add: between_def is_digit_digit_char digit_char_le)

lemma digit_val_digit: "n < 10 \<Longrightarrow> digit_val (digit_char n) = int n"
  by (simp add: digit_val_def of_char_digit)

lemma digit_char_other:
  assumes "n < 10"
  shows "digit_char n \<noteq> CHR '' ''" "digit_char n \<noteq> CHR ''_''"
    "digit_char n \<noteq> CHR ''.''" "digit_char n \<noteq> CHR ''/''"
  using digit_cases [OF assms] by (auto simp: digit_char_def)

lemma digit_lits:
  "CHR ''0'' = digit_char 0" "CHR ''1'' = digit_char 1" "CHR ''2'' = digit_char 2"
  "CHR ''3'' = digit_char 3" "CHR ''5'' = digit_char 5" "CHR ''6'' = digit_char 6"
  "CHR ''9'' = digit_char 9"
  by (simp_all add: digit_char_def)

lemmas digit_simps = between_digit digit_char_eq is_digit_digit_char

lemma re_Y_digits:
  assumes "a < 10" "b < 10" "c < 10" "d < 10"
  shows "re_Y (digit_char a # digit_char b # digit_char c # digit_char d # r)
           = [([digit_char a, digit_char b, digit_char c, digit_char d], r)]"
  using assms by (simp add: is_digit_digit_char)

lemma re_Y_head:
  assumes "a < 10" "b < 10" "c < 10" "d < 10"
  shows "\<exists>rest. re_Y (digit_char a # digit_char b # digit_char c # digit_char d # r)
           = ([digit_char a, digit_char b, digit_char c, digit_char d], r) # rest"
  using assms by (simp add: is_digit_digit_char)

lemma re_m_digits:
  assumes "a < 10" "b < 10" "1 \<le> 10 * a + b" "10 * a + b \<le> 12"
  shows "\<exists>rest. re_m (digit_char a # digit_char b # r) = ([digit_char a, digit_char b], r) # rest"
proof (cases "a = 0")
  case True
  then show ?thesis using assms
    by (simp add: re_m_def alt_def digit_lits digit_simps)
next
  case False
  then have "a = 1" "b \<le> 2" using assms by arith+
  then show ?thesis using assms
    by (simp add: re_m_def alt_def digit_lits digit_simps)
qed

lemma re_d_digits:
  assumes "a < 10" "b < 10" "1 \<le> 10 * a + b" "10 * a + b \<le> 31"
  shows "\<exists>rest. re_d (digit_char a # digit_char b # r) = ([digit_char a, digit_char b], r) # rest"
proof -
  from assms consider "a = 0" "1 \<le> b" | "a = 1" | "a = 2" | "a = 3" "b \<le> 1" by arith
  then show ?thesis
    using assms by cases (simp_all add: re_d_def alt_def digit_lits digit_simps)
qed

lemma re_H_digits:
  assumes "a < 10" "b < 10" "10 * a + b \<le> 23"
  shows "\<exists>rest. re_H (digit_char a # digit_char b # r) = ([digit_char a, digit_char b], r) # rest"
proof -
  from assms consider "a = 0" | "a = 1" | "a = 2" "b \<le> 3" by arith
  then show ?thesis
    using assms by cases (simp_all add: re_H_def alt_def digit_lits digit_simps)
qed

lemma re_M_digits:
  assumes "a < 10" "b < 10" "10 * a + b \<le> 59"
  shows "\<exists>rest. re_M (digit_char a # digit_char b # r) = ([digit_char a, digit_char b], r) # rest"
proof -
  from assms have "a \<le> 5" by arith
  then show ?thesis
    using assms by (simp add: re_M_def alt_def digit_lits digit_simps)
qed

lemma re_S_digits:
  assumes "a < 10" "b < 10" "10 * a + b \<le> 59"
  shows "\<exists>rest. re_S (digit_char a # digit_char b # r) = ([digit_char a, digit_char b], r) # rest"
proof -
  from assms have "a \<le> 5" by arith
  then show ?thesis
    using assms by (simp add: re_S_def alt_def digit_lits digit_simps)
qed

lemma seq_head:
  assumes "\<exists>rest. xs = (g, r) # rest" and "\<exists>rest. f g r = y # rest"
  shows "\<exists>rest. seq xs f = y # rest"
  using assms by (auto simp: seq_def)

lemma lit_head: "\<exists>rest. lit c (c # r) = ([c], r) # rest"
  by (simp add: lit_def)

lemma py_int2:
  assumes "a < 10" "b < 10"
  shows "py_int [digit_char a, digit_char b] = int (10 * a + b)"
  using assms digit_char_other(1) [of a]
  by (simp add: py_int_def digit_val_digit)

lemma py_int4:
  assumes "a < 10" "b < 10" "c < 10" "d < 10"
  shows "py_int [digit_char a, digit_char b, digit_char c, digit_char d]
           = int (1000 * a + 100 * b + 10 * c + d)"
  using assms digit_char_other(1) [of a]
  by (simp add: py_int_def digit_val_digit)

lemma format_regex_matches_digits:
  assumes "y < 10000" "1 \<le> m" "m \<le> 12" "1 \<le> d" "d \<le> 31" "hh \<le> 23" "mm \<le> 59" "ss \<le> 59"
  shows "\<exists>rest. format_regex_matches
           (four y @ two m @ two d @ CHR ''_'' # two hh @ two mm @ two ss)
         = ((four y, two m, two d, two hh, two mm, two ss), []) # rest"
proof -
  have y: "y div 1000 < 10" "y div 100 mod 10 < 10" "y div 10 mod 10 < 10" "y mod 10 < 10"
    using assms(1) by arith+
  have m: "m div 10 < 10" "m mod 10 < 10" "1 \<le> 10 * (m div 10) + m mod 10"
    "10 * (m div 10) + m mod 10 \<le> 12" using assms(2,3) by simp_all
  have d: "d div 10 < 10" "d mod 10 < 10" "1 \<le> 10 * (d div 10) + d mod 10"
    "10 * (d div 10) + d mod 10 \<le> 31" using assms(4,5) by simp_all
  have h: "hh div 10 < 10" "hh mod 10 < 10" "10 * (hh div 10) + hh mod 10 \<le> 23"
    using assms(6) by simp_all
  have mi: "mm div 10 < 10" "mm mod 10 < 10" "10 * (mm div 10) + mm mod 10 \<le> 59"
    using assms(7) by simp_all
  have s: "ss div 10 < 10" "ss mod 10 < 10" "10 * (ss div 10) + ss mod 10 \<le> 59"
    using assms(8) by simp_all
  show ?thesis
    unfolding format_regex_matches_def four_def two_def append_Cons append_Nil
    apply (rule seq_head)
     apply (rule re_Y_head [OF y])
    apply (rule seq_head)
     apply (rule re_m_digits [OF m])
    apply (rule seq_head)
     apply (rule re_d_digits [OF d])
    apply (rule seq_head)
     apply (rule lit_head)
    apply (rule seq_head)
     apply (rule re_H_digits [OF h])
    apply (rule seq_head)
     apply (rule re_M_digits [OF mi])
    apply (rule seq_head)
     apply (rule re_S_digits [OF s])
    apply simp
    done
qed

lemma div_100: "(n::nat) div 10 div 10 = n div 100"
  using div_mult2_eq [of n 10 10] by simp

lemma div_1000: "(n::nat) div 100 div 10 = n div 1000"
  using div_mult2_eq [of n 100 10] by simp

lemma div_1000': "(n::nat) div 10 div 100 = n div 1000"
  using div_mult2_eq [of n 10 100] by simp

lemma replicate_small:
  "replicate 3 c = [c, c, c]" "replicate 2 c = [c, c]" "replicate (Suc 0) c = [c]"
  by (simp_all add: numeral_3_eq_3 numeral_2_eq_2)

lemma dec4:
  fixes n :: nat
  shows "1000 * (n div 1000) + 100 * (n div 100 mod 10) + 10 * (n div 10 mod 10) + n mod 10 = n"
proof -
  have a: "10 * (n div 10) + n mod 10 = n" by (rule mult_div_mod_eq)
  have "10 * (n div 10 div 10) + n div 10 mod 10 = n div 10" by (rule mult_div_mod_eq)
  then have b: "10 * (n div 100) + n div 10 mod 10 = n div 10" unfolding div_100 .
  have "10 * (n div 100 div 10) + n div 100 mod 10 = n div 100" by (rule mult_div_mod_eq)
  then have c: "10 * (n div 1000) + n div 100 mod 10 = n div 100" unfolding div_1000 .
  show ?thesis using a b c by arith
qed

lemma str_nat_digit: "n < 10 \<Longrightarrow> str_nat n = [digit_char n]"
  by (simp add: str_nat.simps [of n])

lemma str_nat_step: "10 \<le> n \<Longrightarrow> str_nat n = str_nat (n div 10) @ [digit_char (n mod 10)]"
  by (simp add: str_nat.simps [of n])

lemma str_nat2: "10 \<le> n \<Longrightarrow> n < 100 \<Longrightarrow> str_nat n = [digit_char (n div 10), digit_char (n mod 10)]"
proof -
  assume n: "10 \<le> n" "n < 100"
  then have "n div 10 < 10" by arith
  then show ?thesis using str_nat_step [OF n(1)] by (simp add: str_nat_digit)
qed

lemma str_nat3:
  "100 \<le> n \<Longrightarrow> n < 1000 \<Longrightarrow>
     str_nat n = [digit_char (n div 100), digit_char (n div 10 mod 10), digit_char (n mod 10)]"
proof -
  assume n: "100 \<le> n" "n < 1000"
  then have a: "10 \<le> n" "10 \<le> n div 10" "n div 10 < 100" by arith+
  have "str_nat (n div 10) = [digit_char (n div 100), digit_char (n div 10 mod 10)]"
    using str_nat2 [OF a(2,3)] unfolding div_100 .
  then show ?thesis using str_nat_step [OF a(1)] by simp
qed

lemma str_nat4: "1000 \<le> n \<Longrightarrow> n < 10000 \<Longrightarrow> str_nat n = four n"
proof -
  assume n: "1000 \<le> n" "n < 10000"
  then have a: "10 \<le> n" "100 \<le> n div 10" "n div 10 < 1000" by arith+
  have "str_nat (n div 10)
      = [digit_char (n div 1000), digit_char (n div 100 mod 10), digit_char (n div 10 mod 10)]"
    using str_nat3 [OF a(2,3)] unfolding div_100 div_1000' .
  then show ?thesis using str_nat_step [OF a(1)] by (simp add: four_def)
qed

lemma zfill2_str_nat: "n < 100 \<Longrightarrow> zfill 2 (str_nat n) = two n"
proof (cases "n < 10")
  case True
  then show ?thesis
    by (simp add: str_nat_digit zfill_def two_def digit_char_def replicate_small)
next
  case False
  assume "n < 100"
  with False show ?thesis by (simp add: str_nat2 zfill_def two_def)
qed

lemma zfill4_str_nat: "n < 10000 \<Longrightarrow> zfill 4 (str_nat n) = four n"
proof -
  assume n: "n < 10000"
  consider "n < 10" | "10 \<le> n" "n < 100" | "100 \<le> n" "n < 1000" | "1000 \<le> n" by arith
  then show ?thesis
  proof cases
    case 1
    then have "n div 1000 = 0" "n div 100 mod 10 = 0" "n div 10 mod 10 = 0" "n mod 10 = n" by simp_all
    then show ?thesis using 1
      by (simp add: str_nat_digit zfill_def four_def digit_char_def replicate_small)
  next
    case 2
    then have "n div 1000 = 0" "n div 100 mod 10 = 0" "n div 10 mod 10 = n div 10" by simp_all
    then show ?thesis using 2
      by (simp add: str_nat2 zfill_def four_def digit_char_def replicate_small)
  next
    case 3
    then have "n div 1000 = 0" "n div 100 mod 10 = n div 100" by simp_all
    then show ?thesis using 3
      by (simp add: str_nat3 zfill_def four_def digit_char_def replicate_small)
  next
    case 4
    then show ?thesis using n by (simp add: str_nat4 zfill_def four_def)
  qed
qed

lemma days_in_month_le31: "1 \<le> m \<Longrightarrow> m \<le> 12 \<Longrightarrow> days_in_month y m \<le> 31"
proof -
  assume "1 \<le> m" "m \<le> 12"
  then have "m = 1 \<or> m = 2 \<or> m = 3 \<or> m = 4 \<or> m = 5 \<or> m = 6
    \<or> m = 7 \<or> m = 8 \<or> m = 9 \<or> m = 10 \<or> m = 11 \<or> m = 12" by arith
  then show ?thesis
    by (elim disjE) (simp_all add: days_in_month_def DAYS_IN_MONTH_def)
qed

lemma strftime_stamp:
  assumes v: "valid_datetime t" and p: "pad_year \<or> 1000 \<le> year t"
  shows "strftime pad_year t = stamp t"
proof -
  from v have b: "nat (year t) < 10000" "nat (month t) < 100" "nat (day t) < 100"
    "nat (hour t) < 100" "nat (minute t) < 100" "nat (second t) < 100"
    using days_in_month_le31 [of "month t" "year t"] by (auto simp: valid_datetime_def)
  have y: "(if pad_year then zfill 4 (str_nat (nat (year t))) else str_nat (nat (year t)))
           = four (nat (year t))"
    using p b(1) by (auto simp: zfill4_str_nat str_nat4)
  show ?thesis
    unfolding strftime_def y stamp_def using b by (simp add: zfill2_str_nat)
qed

lemma two_value: "n < 100 \<Longrightarrow> py_int (two n) = int n"
  unfolding two_def by (subst py_int2) simp_all

lemma four_value: "n < 10000 \<Longrightarrow> py_int (four n) = int n"
proof -
  assume n: "n < 10000"
  then have y: "n div 1000 < 10" "n div 100 mod 10 < 10" "n div 10 mod 10 < 10" "n mod 10 < 10"
    by arith+
  show ?thesis unfolding four_def py_int4 [OF y] using dec4 [of n] by simp
qed

lemma strptime_stamp:
  assumes v: "valid_datetime t" and us: "microsecond t = 0"
  shows "strptime (stamp t) = Inr t"
proof -
  from v have b: "nat (year t) < 10000" "1 \<le> nat (month t)" "nat (month t) \<le> 12"
    "1 \<le> nat (day t)" "nat (day t) \<le> 31" "nat (hour t) \<le> 23" "nat (minute t) \<le> 59"
    "nat (second t) \<le> 59"
    using days_in_month_le31 [of "month t" "year t"] by (auto simp: valid_datetime_def)
  from format_regex_matches_digits [OF b] obtain rest where
    m: "format_regex_matches (stamp t) =
      ((four (nat (year t)), two (nat (month t)), two (nat (day t)),
        two (nat (hour t)), two (nat (minute t)), two (nat (second t))), []) # rest"
    unfolding stamp_def by blast
  have vals: "py_int (four (nat (year t))) = year t" "py_int (two (nat (month t))) = month t"
    "py_int (two (nat (day t))) = day t" "py_int (two (nat (hour t))) = hour t"
    "py_int (two (nat (minute t))) = minute t" "py_int (two (nat (second t))) = second t"
    using v b by (simp_all add: two_value four_value valid_datetime_def)
  have "mk_datetime (year t) (month t) (day t) (hour t) (minute t) (second t) 0 = Some t"
    using v us by (simp add: mk_datetime_def Let_def valid_datetime_def)
  then show ?thesis by (simp add: strptime_def m vals)
qed

lemma split_on_nonempty: "split_on c xs \<noteq> []"
  by (induction xs) (auto split: list.splits)

lemma split_on_append: "split_on c (xs @ c # ys) = split_on c xs @ split_on c ys"
proof (induction xs)
  case Nil
  show ?case by simp
next
  case (Cons x xs)
  obtain p ps where s: "split_on c xs = p # ps"
    using split_on_nonempty [of c xs] by (cases "split_on c xs") auto
  show ?case using Cons s by simp
qed

lemma split_on_none: "c \<notin> set xs \<Longrightarrow> split_on c xs = [xs]"
  by (induction xs) auto

lemma rfind_none: "c \<notin> set xs \<Longrightarrow> rfind c xs = -1"
  by (induction xs) (auto simp: Let_def)

lemma rfind_ge: "-1 \<le> rfind c xs"
  by (induction xs) (auto simp: Let_def)

lemma rfind_append:
  "0 \<le> rfind c ys \<Longrightarrow> rfind c (xs @ ys) = int (length xs) + rfind c ys"
  by (induction xs) (auto simp: Let_def)

lemma path_name_plain:
  assumes "CHR ''/'' \<notin> set s" "s \<noteq> []" "s \<noteq> ''.''"
  shows "path_name s = s"
  using assms by (simp add: path_name_def split_on_none)

lemma path_stem_plain:
  assumes "CHR ''/'' \<notin> set s" "CHR ''.'' \<notin> set s" "s \<noteq> []"
  shows "path_stem s = s"
proof -
  have "s \<noteq> ''.''" using assms(2) by auto
  then have "path_name s = s" using assms by (intro path_name_plain)
  then show ?thesis using assms(2) by (simp add: path_stem_def rfind_none)
qed

lemma path_stem_zip:
  assumes "CHR ''/'' \<notin> set s" "s \<noteq> []"
  shows "path_stem (s @ ''.zip'') = s"
proof -
  have "path_name (s @ ''.zip'') = s @ ''.zip''"
    using assms by (intro path_name_plain) auto
  moreover have "rfind CHR ''.'' (s @ ''.zip'') = int (length s)"
    by (subst rfind_append) (simp_all add: Let_def)
  ultimately show ?thesis using assms(2) by (simp add: path_stem_def)
qed

lemma stamp_parts: "stamp t = date_part t @ CHR ''_'' # time_part t"
  by (simp add: stamp_def date_part_def time_part_def)

lemma two_chars: "n < 100 \<Longrightarrow> c \<in> set (two n) \<Longrightarrow> c \<noteq> CHR ''_'' \<and> c \<noteq> CHR ''.'' \<and> c \<noteq> CHR ''/''"
proof -
  assume n: "n < 100" and c: "c \<in> set (two n)"
  have "n div 10 < 10" "n mod 10 < 10" using n by arith+
  then show ?thesis using c digit_char_other [of "n div 10"] digit_char_other [of "n mod 10"]
    by (auto simp: two_def)
qed

lemma four_chars: "n < 10000 \<Longrightarrow> c \<in> set (four n) \<Longrightarrow> c \<noteq> CHR ''_'' \<and> c \<noteq> CHR ''.'' \<and> c \<noteq> CHR ''/''"
proof -
  assume n: "n < 10000" and c: "c \<in> set (four n)"
  have "n div 1000 < 10" "n div 100 mod 10 < 10" "n div 10 mod 10 < 10" "n mod 10 < 10"
    using n by arith+
  then show ?thesis
    using c digit_char_other [of "n div 1000"] digit_char_other [of "n div 100 mod 10"]
      digit_char_other [of "n div 10 mod 10"] digit_char_other [of "n mod 10"]
    by (auto simp: four_def)
qed

lemma valid_bounds:
  assumes "valid_datetime t"
  shows "nat (year t) < 10000" "nat (month t) < 100" "nat (day t) < 100"
    "nat (hour t) < 100" "nat (minute t) < 100" "nat (second t) < 100"
  using assms days_in_month_le31 [of "month t" "year t"] by (auto simp: valid_datetime_def)

lemma part_chars:
  assumes v: "valid_datetime t" and c: "c \<in> set (date_part t) \<or> c \<in> set (time_part t)"
  shows "c \<noteq> CHR ''_'' \<and> c \<noteq> CHR ''.'' \<and> c \<noteq> CHR ''/''"
  using c valid_bounds [OF v] two_chars [of _ c] four_chars [of _ c]
  unfolding date_part_def time_part_def set_append Un_iff by blast

lemma parts_plain:
  assumes v: "valid_datetime t"
  shows "CHR ''_'' \<notin> set (date_part t)" "CHR ''_'' \<notin> set (time_part t)"
    "CHR ''.'' \<notin> set (stamp t)" "CHR ''/'' \<notin> set (stamp t)"
  using part_chars [OF v] unfolding stamp_parts by auto

lemma split_stamped:
  assumes v: "valid_datetime t"
  shows "split_on CHR ''_'' (db @ CHR ''_'' # stamp t)
           = split_on CHR ''_'' db @ [date_part t, time_part t]"
  unfolding stamp_parts split_on_append
  by (simp add: split_on_none parts_plain [OF v])

lemma drop_last_two: "xs \<noteq> [] \<Longrightarrow> drop (length (xs @ [a, b]) - 2) (xs @ [a, b]) = [a, b]"
  by simp

lemma parse_stem:
  assumes v: "valid_datetime t" and us: "microsecond t = 0"
    and st: "path_stem filename = db @ CHR ''_'' # stamp t"
  shows "parse_backup_timestamp filename = Some t"
proof -
  let ?parts = "split_on CHR ''_'' db @ [date_part t, time_part t]"
  have p: "split_on CHR ''_'' (path_stem filename) = ?parts"
    unfolding st by (rule split_stamped [OF v])
  have l: "\<not> length ?parts < 2" by simp
  have d: "drop (length ?parts - 2) ?parts = [date_part t, time_part t]"
    by (rule drop_last_two) (rule split_on_nonempty)
  have j: "join_with CHR ''_'' [date_part t, time_part t] = stamp t"
    by (simp add: stamp_parts)
  show ?thesis
    unfolding parse_backup_timestamp_def Let_def p d j if_not_P [OF l]
    by (simp add: strptime_stamp [OF v us])
qed

lemma get_backup_name_stamp:
  assumes "valid_datetime t" "pad_year \<or> 1000 \<le> year t"
  shows "get_backup_name pad_year db_name t = db_name @ CHR ''_'' # stamp t"
  using assms by (simp add: get_backup_name_def strftime_stamp)

text \<open>
  Claim C5, as the code has it. For a valid instant of whole seconds, whose year has
  four digits or is padded to four by the platform, and a database name without
  \<^verbatim>\<open>/\<close>: decoding the encoded name followed by the extension \<^verbatim>\<open>.zip\<close> gives the
  instant back, and decoding the encoded name itself does when the database name has
  no \<^verbatim>\<open>.\<close> either.
\<close>

theorem decode_encode_roundtrip:
  assumes v: "valid_datetime t" and us: "microsecond t = 0"
    and y: "pad_year \<or> 1000 \<le> year t"
    and s: "CHR ''/'' \<notin> set db_name"
  shows "(CHR ''.'' \<notin> set db_name \<longrightarrow>
            parse_backup_timestamp (get_backup_name pad_year db_name t) = Some t) \<and>
         parse_backup_timestamp (get_backup_name pad_year db_name t @ ''.zip'') = Some t"
proof -
  let ?n = "db_name @ CHR ''_'' # stamp t"
  have n: "get_backup_name pad_year db_name t = ?n" by (rule get_backup_name_stamp [OF v y])
  have sl: "CHR ''/'' \<notin> set ?n" using s parts_plain(4) [OF v] by simp
  have "path_stem (?n @ ''.zip'') = ?n" using sl by (intro path_stem_zip) simp_all
  then have a: "parse_backup_timestamp (?n @ ''.zip'') = Some t" by (rule parse_stem [OF v us])
  have b: "parse_backup_timestamp ?n = Some t" if "CHR ''.'' \<notin> set db_name"
  proof -
    have "CHR ''.'' \<notin> set ?n" using that parts_plain(3) [OF v] by simp
    then have "path_stem ?n = ?n" using sl by (intro path_stem_plain) simp_all
    then show ?thesis by (rule parse_stem [OF v us])
  qed
  show ?thesis unfolding n using a b by blast
qed

subsection \<open>The properties on the example directory\<close>

lemma example_cutoffs:
  "cutoffs example_now =
     Inr (ymd_hms 2025 4 3 0 0 0, ymd_hms 2025 3 13 0 0 0, ymd_hms 2025 1 10 0 0 0)"
  by code_simp

lemma example_run:
  "rotate_backups example_dir ''shop'' example_now =
     Inr (\<lparr>names = [''shop_20250409_020000.zip'', ''shop_20250305_020000.zip'',
                     ''shop_20250101_020000.zip'', ''notadb_20250409_020000.zip'',
                     ''shop_backup_final.zip'', ''shop_20250315_100000.zip'',
                     ''shop_20250403_000000.zip'', ''shop_20250501_120000.zip''],
           protected = {''shop_20250101_020000.zip''}\<rparr>,
          [Skipping ''shop_backup_final.zip'',
           Deleting ''shop_20250101_020000.zip'',
           Cannot_delete ''shop_20250101_020000.zip'' PermissionError,
           Deleting ''shop_20250301_020000.zip'',
           Deleting ''shop_20250315_020000.zip'',
           Deleting ''shop_x_20250315_100000.zip''])"
  by code_simp

theorem bucket_one_survivor_witness:
  "cutoffs year_end_now =
     Inr (ymd_hms 2025 1 13 0 0 0, ymd_hms 2024 12 23 0 0 0, ymd_hms 2024 10 22 0 0 0) \<and>
   isocalendar (ymd_hms 2024 12 28 2 0 0) = (2024, 52, 6) \<and>
   isocalendar (ymd_hms 2024 12 30 2 0 0) = (2025, 1, 1) \<and>
   isocalendar (ymd_hms 2025 1 3 2 0 0) = (2025, 1, 5) \<and>
   isocalendar (ymd_hms 2025 1 8 2 0 0) = (2025, 2, 3) \<and>
   planned_keep year_end_names ''shop'' year_end_now =
     Inr {''shop_20241228_020000.zip'', ''shop_20250103_020000.zip'',
          ''shop_20250108_020000.zip'', ''shop_20241120_020000.zip'',
          ''shop_20241201_020000.zip''} \<and>
   (''shop_20241230_020000.zip'', ymd_hms 2024 12 30 2 0 0)
     \<in> set (run_entries year_end_names ''shop'') \<and>
   (''shop_20241228_020000.zip'', ymd_hms 2024 12 28 2 0 0)
     \<in> set (run_entries year_end_names ''shop'') \<and>
   (''shop_20241105_020000.zip'', ymd_hms 2024 11 5 2 0 0)
     \<in> set (run_entries year_end_names ''shop'') \<and>
   (''shop_20241201_020000.zip'', ymd_hms 2024 12 1 2 0 0)
     \<in> set (run_entries year_end_names ''shop'') \<and>
   in_weekly (ymd_hms 2025 1 13 0 0 0) (ymd_hms 2024 12 23 0 0 0) (ymd_hms 2024 12 30 2 0 0) \<and>
   in_weekly (ymd_hms 2025 1 13 0 0 0) (ymd_hms 2024 12 23 0 0 0) (ymd_hms 2024 12 28 2 0 0) \<and>
   in_monthly (ymd_hms 2024 12 23 0 0 0) (ymd_hms 2024 10 22 0 0 0) (ymd_hms 2024 11 5 2 0 0) \<and>
   in_monthly (ymd_hms 2024 12 23 0 0 0) (ymd_hms 2024 10 22 0 0 0) (ymd_hms 2024 12 1 2 0 0) \<and>
   (\<exists>g t. (g, t) \<in> set (run_entries year_end_names ''shop'') \<and>
      in_weekly (ymd_hms 2025 1 13 0 0 0) (ymd_hms 2024 12 23 0 0 0) t \<and>
      fst (isocalendar t) = fst (isocalendar (ymd_hms 2024 12 30 2 0 0)) \<and>
      fst (snd (isocalendar t)) = fst (snd (isocalendar (ymd_hms 2024 12 30 2 0 0))) \<and>
      g \<in> (keep_set (ymd_hms 2025 1 13 0 0 0) (ymd_hms 2024 12 23 0 0 0) (ymd_hms 2024 10 22 0 0 0)
            (run_entries year_end_names ''shop'')) \<and>
      (\<forall>(h, u)\<in>set (run_entries year_end_names ''shop'').
          in_weekly (ymd_hms 2025 1 13 0 0 0) (ymd_hms 2024 12 23 0 0 0) u \<and>
          fst (isocalendar u) = fst (isocalendar (ymd_hms 2024 12 30 2 0 0)) \<and>
          fst (snd (isocalendar u)) = fst (snd (isocalendar (ymd_hms 2024 12 30 2 0 0))) \<longrightarrow>
          dt_le u t \<and>
          (h \<in> (keep_set (ymd_hms 2025 1 13 0 0 0) (ymd_hms 2024 12 23 0 0 0) (ymd_hms 2024 10 22 0 0 0)
            (run_entries year_end_names ''shop'')) \<longrightarrow> h = g))) \<and>
   (\<exists>g t. (g, t) \<in> set (run_entries year_end_names ''shop'') \<and>
      in_weekly (ymd_hms 2025 1 13 0 0 0) (ymd_hms 2024 12 23 0 0 0) t \<and>
      fst (isocalendar t) = fst (isocalendar (ymd_hms 2024 12 28 2 0 0)) \<and>
      fst (snd (isocalendar t)) = fst (snd (isocalendar (ymd_hms 2024 12 28 2 0 0))) \<and>
      g \<in> (keep_set (ymd_hms 2025 1 13 0 0 0) (ymd_hms 2024 12 23 0 0 0) (ymd_hms 2024 10 22 0 0 0)
            (run_entries year_end_names ''shop'')) \<and>
      (\<forall>(h, u)\<in>set (run_entries year_end_names ''shop'').
          in_weekly (ymd_hms 2025 1 13 0 0 0) (ymd_hms 2024 12 23 0 0 0) u \<and>
          fst (isocalendar u) = fst (isocalendar (ymd_hms 2024 12 28 2 0 0)) \<and>
          fst (snd (isocalendar u)) = fst (snd (isocalendar (ymd_hms 2024 12 28 2 0 0))) \<longrightarrow>
          dt_le u t \<and>
          (h \<in> (keep_set (ymd_hms 2025 1 13 0 0 0) (ymd_hms 2024 12 23 0 0 0) (ymd_hms 2024 10 22 0 0 0)
            (run_entries year_end_names ''shop'')) \<longrightarrow> h = g))) \<and>
   (\<exists>g t. (g, t) \<in> set (run_entries year_end_names ''shop'') \<and>
      in_monthly (ymd_hms 2024 12 23 0 0 0) (ymd_hms 2024 10 22 0 0 0) t \<and>
      year t = year (ymd_hms 2024 11 5 2 0 0) \<and> month t = month (ymd_hms 2024 11 5 2 0 0) \<and>
      g \<in> (keep_set (ymd_hms 2025 1 13 0 0 0) (ymd_hms 2024 12 23 0 0 0) (ymd_hms 2024 10 22 0 0 0)
            (run_entries year_end_names ''shop'')) \<and>
      (\<forall>(h, u)\<in>set (run_entries year_end_names ''shop'').
          in_monthly (ymd_hms 2024 12 23 0 0 0) (ymd_hms 2024 10 22 0 0 0) u \<and>
          year u = year (ymd_hms 2024 11 5 2 0 0) \<and> month u = month (ymd_hms 2024 11 5 2 0 0) \<longrightarrow>
          dt_le u t \<and>
          (h \<in> (keep_set (ymd_hms 2025 1 13 0 0 0) (ymd_hms 2024 12 23 0 0 0) (ymd_hms 2024 10 22 0 0 0)
            (run_entries year_end_names ''shop'')) \<longrightarrow> h = g))) \<and>
   (\<exists>g t. (g, t) \<in> set (run_entries year_end_names ''shop'') \<and>
      in_monthly (ymd_hms 2024 12 23 0 0 0) (ymd_hms 2024 10 22 0 0 0) t \<and>
      year t = year (ymd_hms 2024 12 1 2 0 0) \<and> month t = month (ymd_hms 2024 12 1 2 0 0) \<and>
      g \<in> (keep_set (ymd_hms 2025 1 13 0 0 0) (ymd_hms 2024 12 23 0 0 0) (ymd_hms 2024 10 22 0 0 0)
            (run_entries year_end_names ''shop'')) \<and>
      (\<forall>(h, u)\<in>set (run_entries year_end_names ''shop'').
          in_monthly (ymd_hms 2024 12 23 0 0 0) (ymd_hms 2024 10 22 0 0 0) u \<and>
          year u = year (ymd_hms 2024 12 1 2 0 0) \<and> month u = month (ymd_hms 2024 12 1 2 0 0) \<longrightarrow>
          dt_le u t \<and>
          (h \<in> (keep_set (ymd_hms 2025 1 13 0 0 0) (ymd_hms 2024 12 23 0 0 0) (ymd_hms 2024 10 22 0 0 0)
            (run_entries year_end_names ''shop'')) \<longrightarrow> h = g)))"
proof -
  have hc: "cutoffs year_end_now =
      Inr (ymd_hms 2025 1 13 0 0 0, ymd_hms 2024 12 23 0 0 0, ymd_hms 2024 10 22 0 0 0)"
    by code_simp
  have i1: "isocalendar (ymd_hms 2024 12 28 2 0 0) = (2024, 52, 6)"
    by code_simp
  have i2: "isocalendar (ymd_hms 2024 12 30 2 0 0) = (2025, 1, 1)"
    by code_simp
  have i3: "isocalendar (ymd_hms 2025 1 3 2 0 0) = (2025, 1, 5)"
    by code_simp
  have i4: "isocalendar (ymd_hms 2025 1 8 2 0 0) = (2025, 2, 3)"
    by code_simp
  have pk: "planned_keep year_end_names ''shop'' year_end_now =
      Inr {''shop_20241228_020000.zip'', ''shop_20250103_020000.zip'',
           ''shop_20250108_020000.zip'', ''shop_20241120_020000.zip'',
           ''shop_20241201_020000.zip''}"
    by code_simp
  have e1: "(''shop_20241230_020000.zip'', ymd_hms 2024 12 30 2 0 0)
      \<in> set (run_entries year_end_names ''shop'')"
    by code_simp
  have e2: "(''shop_20241228_020000.zip'', ymd_hms 2024 12 28 2 0 0)
      \<in> set (run_entries year_end_names ''shop'')"
    by code_simp
  have e3: "(''shop_20241105_020000.zip'', ymd_hms 2024 11 5 2 0 0)
      \<in> set (run_entries year_end_names ''shop'')"
    by code_simp
  have e4: "(''shop_20241201_020000.zip'', ymd_hms 2024 12 1 2 0 0)
      \<in> set (run_entries year_end_names ''shop'')"
    by code_simp
  have w1: "in_weekly (ymd_hms 2025 1 13 0 0 0) (ymd_hms 2024 12 23 0 0 0) (ymd_hms 2024 12 30 2 0 0)"
    by code_simp
  have w2: "in_weekly (ymd_hms 2025 1 13 0 0 0) (ymd_hms 2024 12 23 0 0 0) (ymd_hms 2024 12 28 2 0 0)"
    by code_simp
  have m3: "in_monthly (ymd_hms 2024 12 23 0 0 0) (ymd_hms 2024 10 22 0 0 0) (ymd_hms 2024 11 5 2 0 0)"
    by code_simp
  have m4: "in_monthly (ymd_hms 2024 12 23 0 0 0) (ymd_hms 2024 10 22 0 0 0) (ymd_hms 2024 12 1 2 0 0)"
    by code_simp
  note c1 = bucket_one_survivor [OF hc refl refl e1, THEN conjunct1, THEN mp, OF w1]
  note c2 = bucket_one_survivor [OF hc refl refl e2, THEN conjunct1, THEN mp, OF w2]
  note c3 = bucket_one_survivor [OF hc refl refl e3, THEN conjunct2, THEN mp, OF m3]
  note c4 = bucket_one_survivor [OF hc refl refl e4, THEN conjunct2, THEN mp, OF m4]
  show ?thesis
    by (intro conjI hc i1 i2 i3 i4 pk e1 e2 e3 e4 w1 w2 m3 m4 c1 c2 c3 c4)
qed

theorem recent_entries_kept_witness:
  "(''shop_20250403_000000.zip'', ymd_hms 2025 4 3 0 0 0)
     \<in> set (run_entries (names example_dir) ''shop'') \<and>
   dt_sub_days example_now 7 = Inr (ymd_hms 2025 4 3 0 0 0) \<and>
   dt_le (ymd_hms 2025 4 3 0 0 0) (ymd_hms 2025 4 3 0 0 0) \<and>
   (\<exists>d' lg. rotate_backups example_dir ''shop'' example_now = Inr (d', lg) \<and>
      ''shop_20250403_000000.zip''
        \<in> keep_set (ymd_hms 2025 4 3 0 0 0) (ymd_hms 2025 3 13 0 0 0) (ymd_hms 2025 1 10 0 0 0)
            (run_entries (names example_dir) ''shop'') \<and>
      ''shop_20250403_000000.zip'' \<in> set (names d') \<and>
      Deleting ''shop_20250403_000000.zip'' \<notin> set lg)"
proof -
  have h1: "(''shop_20250403_000000.zip'', ymd_hms 2025 4 3 0 0 0)
      \<in> set (run_entries (names example_dir) ''shop'')"
    by code_simp
  have h2: "dt_sub_days example_now 7 = Inr (ymd_hms 2025 4 3 0 0 0)"
    by code_simp
  have h3: "dt_le (ymd_hms 2025 4 3 0 0 0) (ymd_hms 2025 4 3 0 0 0)"
    by code_simp
  note c = recent_entries_kept [OF h1 h2 h3 example_run,
      of "ymd_hms 2025 3 13 0 0 0" "ymd_hms 2025 1 10 0 0 0"]
  have "\<exists>d' lg. rotate_backups example_dir ''shop'' example_now = Inr (d', lg) \<and>
      ''shop_20250403_000000.zip''
        \<in> keep_set (ymd_hms 2025 4 3 0 0 0) (ymd_hms 2025 3 13 0 0 0) (ymd_hms 2025 1 10 0 0 0)
            (run_entries (names example_dir) ''shop'') \<and>
      ''shop_20250403_000000.zip'' \<in> set (names d') \<and>
      Deleting ''shop_20250403_000000.zip'' \<notin> set lg"
    using example_run c by blast
  with h1 h2 h3 show ?thesis by (intro conjI)
qed

theorem tiers_disjoint_witness:
  "cutoffs example_now =
     Inr (ymd_hms 2025 4 3 0 0 0, ymd_hms 2025 3 13 0 0 0, ymd_hms 2025 1 10 0 0 0) \<and>
   (''shop_20250101_020000.zip'', ymd_hms 2025 1 1 2 0 0)
     \<in> set (run_entries (names example_dir) ''shop'') \<and>
   dt_less (ymd_hms 2025 1 1 2 0 0) (ymd_hms 2025 1 10 0 0 0) \<and>
   \<not> in_daily (ymd_hms 2025 4 3 0 0 0) (ymd_hms 2025 1 1 2 0 0) \<and>
   \<not> in_weekly (ymd_hms 2025 4 3 0 0 0) (ymd_hms 2025 3 13 0 0 0) (ymd_hms 2025 1 1 2 0 0) \<and>
   \<not> in_monthly (ymd_hms 2025 3 13 0 0 0) (ymd_hms 2025 1 10 0 0 0) (ymd_hms 2025 1 1 2 0 0) \<and>
   ''shop_20250101_020000.zip''
     \<notin> keep_set (ymd_hms 2025 4 3 0 0 0) (ymd_hms 2025 3 13 0 0 0) (ymd_hms 2025 1 10 0 0 0)
          (run_entries (names example_dir) ''shop'') \<and>
   ''shop_20250101_020000.zip''
     \<in> set (delete_list
              (keep_set (ymd_hms 2025 4 3 0 0 0) (ymd_hms 2025 3 13 0 0 0)
                 (ymd_hms 2025 1 10 0 0 0) (run_entries (names example_dir) ''shop''))
              (run_entries (names example_dir) ''shop''))"
proof -
  have h2: "(''shop_20250101_020000.zip'', ymd_hms 2025 1 1 2 0 0)
      \<in> set (run_entries (names example_dir) ''shop'')"
    by code_simp
  have h3: "dt_less (ymd_hms 2025 1 1 2 0 0) (ymd_hms 2025 1 10 0 0 0)"
    by code_simp
  note c = tiers_disjoint [OF example_cutoffs refl, THEN conjunct2, THEN conjunct2,
      THEN conjunct2, THEN mp, OF conjI, OF h2 h3]
  show ?thesis by (intro conjI example_cutoffs h2 h3 c [THEN conjunct1]
      c [THEN conjunct2, THEN conjunct1] c [THEN conjunct2, THEN conjunct2, THEN conjunct1]
      c [THEN conjunct2, THEN conjunct2, THEN conjunct2, THEN conjunct1]
      c [THEN conjunct2, THEN conjunct2, THEN conjunct2, THEN conjunct2])
qed

theorem unparsable_untouched_witness:
  "parse_backup_timestamp ''shop_backup_final.zip'' = None \<and>
   ''shop_backup_final.zip'' \<in> set (glob (names example_dir) ''shop'') \<and>
   (\<exists>d' lg. rotate_backups example_dir ''shop'' example_now = Inr (d', lg) \<and>
      ''shop_backup_final.zip''
        \<notin> keep_set (ymd_hms 2025 4 3 0 0 0) (ymd_hms 2025 3 13 0 0 0) (ymd_hms 2025 1 10 0 0 0)
            (run_entries (names example_dir) ''shop'') \<and>
      ''shop_backup_final.zip''
        \<notin> set (delete_list
                 (keep_set (ymd_hms 2025 4 3 0 0 0) (ymd_hms 2025 3 13 0 0 0)
                    (ymd_hms 2025 1 10 0 0 0) (run_entries (names example_dir) ''shop''))
                 (run_entries (names example_dir) ''shop'')) \<and>
      Deleting ''shop_backup_final.zip'' \<notin> set lg \<and>
      ''shop_backup_final.zip'' \<in> set (names d'))"
proof -
  have h1: "parse_backup_timestamp ''shop_backup_final.zip'' = None"
    by code_simp
  have h2: "''shop_backup_final.zip'' \<in> set (glob (names example_dir) ''shop'')"
    by code_simp
  have h3: "''shop_backup_final.zip'' \<in> set (names example_dir)"
    by code_simp
  note c = unparsable_untouched [OF h1 example_run,
      of "ymd_hms 2025 4 3 0 0 0" "ymd_hms 2025 3 13 0 0 0" "ymd_hms 2025 1 10 0 0 0"
        "keep_set (ymd_hms 2025 4 3 0 0 0) (ymd_hms 2025 3 13 0 0 0)
           (ymd_hms 2025 1 10 0 0 0) (run_entries (names example_dir) ''shop'')"]
  note c4 = c [THEN conjunct2, THEN conjunct2, THEN conjunct2, THEN iffD2, OF h3]
  have "\<exists>d' lg. rotate_backups example_dir ''shop'' example_now = Inr (d', lg) \<and>
      ''shop_backup_final.zip''
        \<notin> keep_set (ymd_hms 2025 4 3 0 0 0) (ymd_hms 2025 3 13 0 0 0) (ymd_hms 2025 1 10 0 0 0)
            (run_entries (names example_dir) ''shop'') \<and>
      ''shop_backup_final.zip''
        \<notin> set (delete_list
                 (keep_set (ymd_hms 2025 4 3 0 0 0) (ymd_hms 2025 3 13 0 0 0)
                    (ymd_hms 2025 1 10 0 0 0) (run_entries (names example_dir) ''shop''))
                 (run_entries (names example_dir) ''shop'')) \<and>
      Deleting ''shop_backup_final.zip'' \<notin> set lg \<and>
      ''shop_backup_final.zip'' \<in> set (names d')"
    using example_run c c4 by blast
  with h1 h2 show ?thesis by (intro conjI)
qed

theorem decode_encode_roundtrip_witness:
  "valid_datetime (ymd_hms 2025 1 5 2 0 0) \<and>
   microsecond (ymd_hms 2025 1 5 2 0 0) = 0 \<and>
   1000 \<le> year (ymd_hms 2025 1 5 2 0 0) \<and>
   CHR ''/'' \<notin> set ''my_db'' \<and> CHR ''.'' \<notin> set ''my_db'' \<and>
   parse_backup_timestamp (get_backup_name False ''my_db'' (ymd_hms 2025 1 5 2 0 0))
     = Some (ymd_hms 2025 1 5 2 0 0) \<and>
   parse_backup_timestamp (get_backup_name False ''my_db'' (ymd_hms 2025 1 5 2 0 0) @ ''.zip'')
     = Some (ymd_hms 2025 1 5 2 0 0)"
proof -
  have h1: "valid_datetime (ymd_hms 2025 1 5 2 0 0)" by code_simp
  have h2: "microsecond (ymd_hms 2025 1 5 2 0 0) = 0" by code_simp
  have h3: "1000 \<le> year (ymd_hms 2025 1 5 2 0 0)" by code_simp
  have h4: "CHR ''/'' \<notin> set ''my_db''" by code_simp
  have h5: "CHR ''.'' \<notin> set ''my_db''" by code_simp
  note c = decode_encode_roundtrip [OF h1 h2 disjI2 h4, OF h3, of False]
  show ?thesis
    by (intro conjI h1 h2 h3 h4 h5 c [THEN conjunct1, THEN mp, OF h5] c [THEN conjunct2])
qed

text \<open>
  Claim C5 as it is stated fails for a database name with a dot: the stem of
  \<^verbatim>\<open>my.db_20250105_020000\<close> is \<^verbatim>\<open>my\<close>, which has no timestamp.
\<close>

theorem decode_encode_dotted_name:
  "CHR ''/'' \<notin> set ''my.db'' \<and>
   valid_datetime (ymd_hms 2025 1 5 2 0 0) \<and>
   microsecond (ymd_hms 2025 1 5 2 0 0) = 0 \<and>
   get_backup_name True ''my.db'' (ymd_hms 2025 1 5 2 0 0) = ''my.db_20250105_020000'' \<and>
   get_backup_name False ''my.db'' (ymd_hms 2025 1 5 2 0 0) = ''my.db_20250105_020000'' \<and>
   parse_backup_timestamp ''my.db_20250105_020000'' = None"
  by code_simp

theorem second_run_retries_failed_removals_witness:
  "rotate_backups (example_dir\<lparr>protected := {}\<rparr>) ''shop'' example_now =
     Inr (\<lparr>names = [''shop_20250409_020000.zip'', ''shop_20250305_020000.zip'',
                     ''notadb_20250409_020000.zip'', ''shop_backup_final.zip'',
                     ''shop_20250315_100000.zip'', ''shop_20250403_000000.zip'',
                     ''shop_20250501_120000.zip''],
           protected = {}\<rparr>,
          [Skipping ''shop_backup_final.zip'',
           Deleting ''shop_20250101_020000.zip'',
           Deleting ''shop_20250301_020000.zip'',
           Deleting ''shop_20250315_020000.zip'',
           Deleting ''shop_x_20250315_100000.zip'']) \<and>
   planned_deletions
     [''shop_20250409_020000.zip'', ''shop_20250305_020000.zip'',
      ''notadb_20250409_020000.zip'', ''shop_backup_final.zip'',
      ''shop_20250315_100000.zip'', ''shop_20250403_000000.zip'',
      ''shop_20250501_120000.zip''] ''shop'' example_now = Inr []"
proof -
  have r: "rotate_backups (example_dir\<lparr>protected := {}\<rparr>) ''shop'' example_now =
     Inr (\<lparr>names = [''shop_20250409_020000.zip'', ''shop_20250305_020000.zip'',
                     ''notadb_20250409_020000.zip'', ''shop_backup_final.zip'',
                     ''shop_20250315_100000.zip'', ''shop_20250403_000000.zip'',
                     ''shop_20250501_120000.zip''],
           protected = {}\<rparr>,
          [Skipping ''shop_backup_final.zip'',
           Deleting ''shop_20250101_020000.zip'',
           Deleting ''shop_20250301_020000.zip'',
           Deleting ''shop_20250315_020000.zip'',
           Deleting ''shop_x_20250315_100000.zip''])"
    by code_simp
  from second_run_retries_failed_removals [OF r]
  have c: "planned_deletions
     [''shop_20250409_020000.zip'', ''shop_20250305_020000.zip'',
      ''notadb_20250409_020000.zip'', ''shop_backup_final.zip'',
      ''shop_20250315_100000.zip'', ''shop_20250403_000000.zip'',
      ''shop_20250501_120000.zip''] ''shop'' example_now = Inr []"
    by auto
  show ?thesis by (intro conjI r c)
qed

text \<open>
  Claim C7 as it is stated fails when a removal fails: the archive that could not be
  removed is still there for the second run, which puts it in its delete-set again.
\<close>

theorem second_run_deletes_again:
  "rotate_backups
     \<lparr>names = [''shop_20250101_020000.zip''], protected = {''shop_20250101_020000.zip''}\<rparr>
     ''shop'' example_now =
     Inr (\<lparr>names = [''shop_20250101_020000.zip''],
            protected = {''shop_20250101_020000.zip''}\<rparr>,
          [Deleting ''shop_20250101_020000.zip'',
           Cannot_delete ''shop_20250101_020000.zip'' PermissionError]) \<and>
   planned_deletions [''shop_20250101_020000.zip''] ''shop'' example_now =
     Inr [''shop_20250101_020000.zip'']"
  by code_simp

theorem rotation_order_independent_witness:
  "set (names example_dir) = set (names (example_dir\<lparr>names := rev (names example_dir)\<rparr>)) \<and>
   distinct (names example_dir) \<and>
   distinct (names (example_dir\<lparr>names := rev (names example_dir)\<rparr>)) \<and>
   protected example_dir = protected (example_dir\<lparr>names := rev (names example_dir)\<rparr>) \<and>
   run_entries (names example_dir) ''shop'' =
     run_entries (names (example_dir\<lparr>names := rev (names example_dir)\<rparr>)) ''shop'' \<and>
   planned_keep (names example_dir) ''shop'' example_now =
     planned_keep (names (example_dir\<lparr>names := rev (names example_dir)\<rparr>)) ''shop'' example_now \<and>
   planned_deletions (names example_dir) ''shop'' example_now =
     planned_deletions (names (example_dir\<lparr>names := rev (names example_dir)\<rparr>)) ''shop''
       example_now \<and>
   (\<exists>d1' lg1 d2' lg2.
      rotate_backups example_dir ''shop'' example_now = Inr (d1', lg1) \<and>
      rotate_backups (example_dir\<lparr>names := rev (names example_dir)\<rparr>) ''shop'' example_now =
        Inr (d2', lg2) \<and>
      set (names d2') = set (names d1'))"
proof -
  have h1: "set (names example_dir)
      = set (names (example_dir\<lparr>names := rev (names example_dir)\<rparr>))" by simp
  have h2: "distinct (names example_dir)" by code_simp
  have h3: "distinct (names (example_dir\<lparr>names := rev (names example_dir)\<rparr>))"
    using h2 by simp
  have h4: "protected example_dir = protected (example_dir\<lparr>names := rev (names example_dir)\<rparr>)"
    by simp
  note c = rotation_order_independent [OF h1 h2 h3, of "''shop''" example_now]
  note c4 = c [THEN conjunct2, THEN conjunct2, THEN conjunct2, THEN mp, OF conjI,
      OF h4 example_run]
  from c4 example_run
  have e: "\<exists>d1' lg1 d2' lg2.
      rotate_backups example_dir ''shop'' example_now = Inr (d1', lg1) \<and>
      rotate_backups (example_dir\<lparr>names := rev (names example_dir)\<rparr>) ''shop'' example_now =
        Inr (d2', lg2) \<and>
      set (names d2') = set (names d1')"
    by blast
  show ?thesis
    by (intro conjI h1 h2 h3 h4 c [THEN conjunct1] c [THEN conjunct2, THEN conjunct1]
        c [THEN conjunct2, THEN conjunct2, THEN conjunct1] e)
qed

theorem removal_failures_isolated_witness:
  "cutoffs example_now =
     Inr (ymd_hms 2025 4 3 0 0 0, ymd_hms 2025 3 13 0 0 0, ymd_hms 2025 1 10 0 0 0) \<and>
   delete_list
     (keep_set (ymd_hms 2025 4 3 0 0 0) (ymd_hms 2025 3 13 0 0 0) (ymd_hms 2025 1 10 0 0 0)
        (run_entries (names example_dir) ''shop''))
     (run_entries (names example_dir) ''shop'') =
     [''shop_20250101_020000.zip'', ''shop_20250301_020000.zip'',
      ''shop_20250315_020000.zip'', ''shop_x_20250315_100000.zip''] \<and>
   ''shop_20250101_020000.zip'' \<in> protected example_dir \<and>
   ''shop_20250301_020000.zip'' \<notin> protected example_dir \<and>
   (\<exists>d' lg. rotate_backups example_dir ''shop'' example_now = Inr (d', lg) \<and>
      Deleting ''shop_20250101_020000.zip'' \<in> set lg \<and>
      ''shop_20250101_020000.zip'' \<in> set (names d') \<and>
      Cannot_delete ''shop_20250101_020000.zip'' PermissionError \<in> set lg \<and>
      Deleting ''shop_20250301_020000.zip'' \<in> set lg \<and>
      ''shop_20250301_020000.zip'' \<notin> set (names d'))"
proof -
  have h2: "delete_list
     (keep_set (ymd_hms 2025 4 3 0 0 0) (ymd_hms 2025 3 13 0 0 0) (ymd_hms 2025 1 10 0 0 0)
        (run_entries (names example_dir) ''shop''))
     (run_entries (names example_dir) ''shop'') =
     [''shop_20250101_020000.zip'', ''shop_20250301_020000.zip'',
      ''shop_20250315_020000.zip'', ''shop_x_20250315_100000.zip'']"
    by code_simp
  have h3: "''shop_20250101_020000.zip'' \<in> protected example_dir" by code_simp
  have h4: "''shop_20250301_020000.zip'' \<notin> protected example_dir" by code_simp
  from removal_failures_isolated [OF example_cutoffs refl refl, of example_dir "''shop''"]
  obtain d' lg where r: "rotate_backups example_dir ''shop'' example_now = Inr (d', lg)"
    and a: "\<forall>f\<in>set [''shop_20250101_020000.zip'', ''shop_20250301_020000.zip'',
              ''shop_20250315_020000.zip'', ''shop_x_20250315_100000.zip''].
              Deleting f \<in> set lg \<and>
              (if f \<in> protected example_dir
               then f \<in> set (names d') \<and> Cannot_delete f PermissionError \<in> set lg
               else f \<notin> set (names d'))"
    unfolding h2 by blast
  have a1: "Deleting ''shop_20250101_020000.zip'' \<in> set lg \<and>
      ''shop_20250101_020000.zip'' \<in> set (names d') \<and>
      Cannot_delete ''shop_20250101_020000.zip'' PermissionError \<in> set lg"
    using a [THEN bspec, of "''shop_20250101_020000.zip''"] h3 by simp
  have a2: "Deleting ''shop_20250301_020000.zip'' \<in> set lg \<and>
      ''shop_20250301_020000.zip'' \<notin> set (names d')"
    using a [THEN bspec, of "''shop_20250301_020000.zip''"] h4 by simp
  have "\<exists>d' lg. rotate_backups example_dir ''shop'' example_now = Inr (d', lg) \<and>
      Deleting ''shop_20250101_020000.zip'' \<in> set lg \<and>
      ''shop_20250101_020000.zip'' \<in> set (names d') \<and>
      Cannot_delete ''shop_20250101_020000.zip'' PermissionError \<in> set lg \<and>
      Deleting ''shop_20250301_020000.zip'' \<in> set lg \<and>
      ''shop_20250301_020000.zip'' \<notin> set (names d')"
    using r a1 a2 by blast
  with example_cutoffs h2 h3 h4 show ?thesis by (intro conjI)
qed


subsection \<open>Files of another database\<close>

text \<open>What the pattern does give: a name it does not match is left alone.\<close>

lemma unmatched_files_untouched:
  assumes p: "\<not> fnmatch (db @ ''_*.zip'') f"
    and r: "rotate_backups d db now = Inr (d', lg)"
  shows "Deleting f \<notin> set lg \<and> (f \<in> set (names d') \<longleftrightarrow> f \<in> set (names d))"
proof -
  let ?E = "run_entries (names d) db"
  have nE: "f \<notin> fst ` set ?E" using p by (auto simp: set_run_entries)
  then have b: "f \<notin> set (delete_list K' ?E)" for K'
    by (simp add: delete_list_iff)
  from r show ?thesis
  proof (cases rule: rotate_backups_cases)
    case early
    then show ?thesis by (simp add: skip_log_no_Deleting)
  next
    case (run dc' wc' mc' lg')
    show ?thesis using rotate_backups_effect [OF r run(2)] b by simp
  qed
qed

text \<open>
  Claim C6. A run for the database \<^verbatim>\<open>shop\<close> is to leave the archives of every other
  database alone. The pattern \<^verbatim>\<open>shop_*.zip\<close> also matches the archives of a database
  whose name starts with \<^verbatim>\<open>shop_\<close>: on 2025-04-10 the run for \<^verbatim>\<open>shop\<close> removes the
  archive that the database \<^verbatim>\<open>shop_eu\<close> wrote on 2025-01-01.
\<close>

theorem rotate_removes_other_database:
  "rotate_backups
     \<lparr>names = [''shop_eu_20250101_020000.zip''], protected = {}\<rparr>
     ''shop''
     \<lparr>year = 2025, month = 4, day = 10, hour = 0, minute = 0, second = 0, microsecond = 0\<rparr>
   = Inr (\<lparr>names = [], protected = {}\<rparr>, [Deleting ''shop_eu_20250101_020000.zip''])"
  by code_simp

end
